theory Spec2Isabelle
  imports Main "HOL-Library.Word" "HOL-Library.Finite_Map" "HOL-Library.Multiset"
begin

section \<open>TtlMap: a map whose entries expire\<close>

text \<open>
  The Go package \<^verbatim>\<open>ttlmap\<close> (version 0.1.1, \<^verbatim>\<open>ttlmap.go\<close>) is embedded here function
  by function. Go maps and the \<^verbatim>\<open>*item\<close> pointers stored in them are reference values, so
  the program memory is explicit: a store of map objects and a store of item objects, both
  indexed by addresses, with allocation counters. Each exported method is a function from
  the state before the call to an outcome: the state after it (and the returned values), a
  run-time fault, or a call that cannot proceed.
\<close>

subsection \<open>Data\<close>

type_synonym addr = nat

type_synonym int64 = "64 word"

text \<open>\<^verbatim>\<open>type item[V any] struct { value V; expires int64 }\<close>\<close>

record 'v item =
  item_value :: 'v
  expires :: int64

text \<open>
  \<^verbatim>\<open>type Key interface { comparable }\<close>: a value of the key type, as a Go map treats it.
  \<^item> \<open>Key k\<close> is a value that is equal to itself; two such keys are \<^verbatim>\<open>==\<close> exactly when they
    are the same \<open>k\<close> (values that compare equal, like the two floating-point zeros, are one
    \<open>k\<close>).
  \<^item> \<open>NaNKey k\<close> is a value that is not equal to itself or to any other: a floating-point
    NaN (the package's tests use \<^verbatim>\<open>float32\<close> keys), or a struct or array that holds one.
  \<^item> \<open>Unhashable\<close> is an interface value whose dynamic type is not comparable (a slice, a
    map, a function), which the key type admits when it is an interface type. Every map
    operation on such a key panics.
\<close>

datatype 'k key = Key 'k | NaNKey 'k | Unhashable

text \<open>
  \<^verbatim>\<open>sync.RWMutex\<close>: free, held by one writer, or held by \<open>n\<close> readers (\<open>n > 0\<close>).
\<close>

datatype rwmutex = Unlocked | WriteLocked | ReadLocked nat

datatype fault =
    UnlockOfUnlockedRWMutex
  | RUnlockOfUnlockedRWMutex
  | NonPositiveTickerInterval
  | HashOfUnhashableType

text \<open>
  The outcome of a call. \<open>Blocks\<close>: the call cannot proceed from this state; it waits for
  another goroutine to act.
\<close>

datatype 'a outcome = is_Done: Done 'a | Fault fault | Blocks

fun andThen :: "'a outcome \<Rightarrow> ('a \<Rightarrow> 'b outcome) \<Rightarrow> 'b outcome" where
  "andThen (Done a) f = f a"
| "andThen (Fault e) f = Fault e"
| "andThen Blocks f = Blocks"

text \<open>
  The prune goroutine started by \<^verbatim>\<open>New\<close>: created by the \<^verbatim>\<open>go\<close> statement but not yet
  run, inside its \<^verbatim>\<open>for { select { ... } }\<close> loop, or returned after a receive on
  \<^verbatim>\<open>stop\<close>. Its \<^verbatim>\<open>time.Ticker\<close> is not yet created, delivering ticks at an interval, or
  stopped.
\<close>

datatype sweeper = Spawned | Running | Stopped

datatype ticker = NoTicker | Ticking int64 | TickerStopped

text \<open>
  A map object (\<^verbatim>\<open>map[K]*item[V]\<close>) is a finite collection of entries, each a key with an
  item address. The entries under keys equal to themselves form a finite map, \<open>reachable\<close>:
  there is at most one per key, and it is the one a lookup finds. An entry under a key not
  equal to itself is found by no lookup and there may be any number of them: they form a
  multiset, \<open>unreachable\<close>.
\<close>

record 'k map_object =
  reachable :: "('k, addr) fmap"
  unreachable :: "('k \<times> addr) multiset"

text \<open>
  The program memory: \<open>maps\<close> holds the map objects, \<open>items\<close> the item objects (of type
  \<open>'i\<close>); addresses from \<open>next_map\<close> and \<open>next_item\<close> upwards are not yet allocated.
\<close>

record ('k, 'i) memory =
  maps :: "addr \<Rightarrow> 'k map_object"
  items :: "addr \<Rightarrow> 'i"
  next_map :: addr
  next_item :: addr

text \<open>
  The memory together with the fields \<^verbatim>\<open>entries\<close> and \<^verbatim>\<open>lock\<close> of one \<^verbatim>\<open>TtlMap\<close> struct,
  which both versions of the package have.
\<close>

record ('k, 'i) guarded = "('k, 'i) memory" +
  entries :: addr
  lock :: rwmutex

text \<open>
  Version 0.1.1 adds the field \<^verbatim>\<open>ttl\<close>; the state also holds the prune goroutine
  (\<open>pruneInterval\<close> is captured by its closure). The unbuffered channel \<^verbatim>\<open>stop\<close> holds no
  data: a send on it completes exactly when the goroutine receives, which it can do only
  inside its loop, so the channel is represented by the goroutine's control state
  \<open>sweeper\<close>.
\<close>

record ('k, 'v) state = "('k, 'v item) guarded" +
  ttl :: int64
  pruneInterval :: int64
  sweeper :: sweeper
  ticker :: ticker

text \<open>
  Version 0.1.0 (the second retained variant): \<^verbatim>\<open>type item[V any] struct { value V;
  lastAccess int64 }\<close>; its \<^verbatim>\<open>TtlMap\<close> has \<^verbatim>\<open>entries\<close>, \<^verbatim>\<open>lock\<close> and \<^verbatim>\<open>stop\<close> only.
\<close>

record 'v item_v010 =
  item_value_v010 :: 'v
  lastAccess :: int64

type_synonym ('k, 'v) state_v010 = "('k, 'v item_v010) guarded"

subsection \<open>Language and library primitives\<close>

text \<open>\<^verbatim>\<open>sync.RWMutex\<close>, as documented: unlocking a mutex that is not locked is a fatal error.\<close>

fun RWMutex_Lock :: "rwmutex \<Rightarrow> rwmutex outcome" where
  "RWMutex_Lock Unlocked = Done WriteLocked"
| "RWMutex_Lock WriteLocked = Blocks"
| "RWMutex_Lock (ReadLocked n) = Blocks"

fun RWMutex_Unlock :: "rwmutex \<Rightarrow> rwmutex outcome" where
  "RWMutex_Unlock WriteLocked = Done Unlocked"
| "RWMutex_Unlock Unlocked = Fault UnlockOfUnlockedRWMutex"
| "RWMutex_Unlock (ReadLocked n) = Fault UnlockOfUnlockedRWMutex"

fun RWMutex_RLock :: "rwmutex \<Rightarrow> rwmutex outcome" where
  "RWMutex_RLock Unlocked = Done (ReadLocked (Suc 0))"
| "RWMutex_RLock (ReadLocked n) = Done (ReadLocked (Suc n))"
| "RWMutex_RLock WriteLocked = Blocks"

fun RWMutex_RUnlock :: "rwmutex \<Rightarrow> rwmutex outcome" where
  "RWMutex_RUnlock (ReadLocked (Suc 0)) = Done Unlocked"
| "RWMutex_RUnlock (ReadLocked (Suc (Suc n))) = Done (ReadLocked (Suc n))"
| "RWMutex_RUnlock (ReadLocked 0) = Fault RUnlockOfUnlockedRWMutex"
| "RWMutex_RUnlock Unlocked = Fault RUnlockOfUnlockedRWMutex"
| "RWMutex_RUnlock WriteLocked = Fault RUnlockOfUnlockedRWMutex"

text \<open>\<^verbatim>\<open>m.lock.Lock()\<close>, \<^verbatim>\<open>m.lock.Unlock()\<close>, \<^verbatim>\<open>m.lock.RLock()\<close>, \<^verbatim>\<open>m.lock.RUnlock()\<close>\<close>

definition lock_Lock :: "('k, 'i, 'z) guarded_scheme \<Rightarrow> ('k, 'i, 'z) guarded_scheme outcome" where
  "lock_Lock m = andThen (RWMutex_Lock (lock m)) (\<lambda>l. Done (m\<lparr>lock := l\<rparr>))"

definition lock_Unlock :: "('k, 'i, 'z) guarded_scheme \<Rightarrow> ('k, 'i, 'z) guarded_scheme outcome" where
  "lock_Unlock m = andThen (RWMutex_Unlock (lock m)) (\<lambda>l. Done (m\<lparr>lock := l\<rparr>))"

definition lock_RLock :: "('k, 'i, 'z) guarded_scheme \<Rightarrow> ('k, 'i, 'z) guarded_scheme outcome" where
  "lock_RLock m = andThen (RWMutex_RLock (lock m)) (\<lambda>l. Done (m\<lparr>lock := l\<rparr>))"

definition lock_RUnlock :: "('k, 'i, 'z) guarded_scheme \<Rightarrow> ('k, 'i, 'z) guarded_scheme outcome" where
  "lock_RUnlock m = andThen (RWMutex_RUnlock (lock m)) (\<lambda>l. Done (m\<lparr>lock := l\<rparr>))"

text \<open>
  The Go runtime's operations on one map object: lookup, assignment and deletion by key,
  and whether a key with an item address is one of its entries. A lookup compares keys
  with \<^verbatim>\<open>==\<close>, so it finds nothing under a key not equal to itself; an assignment under
  such a key adds one more entry, and a deletion removes nothing. Each of the three hashes
  the key first and panics when it cannot.
\<close>

definition empty_map :: "'k map_object" where
  "empty_map = \<lparr>reachable = fmempty, unreachable = {#}\<rparr>"

fun mapaccess :: "'k key \<Rightarrow> 'k map_object \<Rightarrow> addr option outcome" where
  "mapaccess (Key k) obj = Done (fmlookup (reachable obj) k)"
| "mapaccess (NaNKey k) obj = Done None"
| "mapaccess Unhashable obj = Fault HashOfUnhashableType"

fun mapassign :: "'k key \<Rightarrow> addr \<Rightarrow> 'k map_object \<Rightarrow> 'k map_object outcome" where
  "mapassign (Key k) p obj = Done (obj\<lparr>reachable := fmupd k p (reachable obj)\<rparr>)"
| "mapassign (NaNKey k) p obj = Done (obj\<lparr>unreachable := add_mset (k, p) (unreachable obj)\<rparr>)"
| "mapassign Unhashable p obj = Fault HashOfUnhashableType"

fun mapdelete :: "'k key \<Rightarrow> 'k map_object \<Rightarrow> 'k map_object outcome" where
  "mapdelete (Key k) obj = Done (obj\<lparr>reachable := fmdrop k (reachable obj)\<rparr>)"
| "mapdelete (NaNKey k) obj = Done obj"
| "mapdelete Unhashable obj = Fault HashOfUnhashableType"

fun is_entry :: "'k key \<Rightarrow> addr \<Rightarrow> 'k map_object \<Rightarrow> bool" where
  "is_entry (Key k) p obj \<longleftrightarrow> fmlookup (reachable obj) k = Some p"
| "is_entry (NaNKey k) p obj \<longleftrightarrow> (k, p) \<in># unreachable obj"
| "is_entry Unhashable p obj \<longleftrightarrow> False"

text \<open>
  Go's built-in operations on a map object at address \<open>mp\<close> and on an item object at
  address \<open>p\<close>: \<^verbatim>\<open>v, ok := mp[key]\<close>, \<^verbatim>\<open>mp[key] = p\<close>, \<^verbatim>\<open>delete(mp, key)\<close>, \<^verbatim>\<open>clear(mp)\<close>,
  \<^verbatim>\<open>len(mp)\<close>, \<^verbatim>\<open>make(map[K]*item[V], n)\<close> (the capacity is a sizing hint only),
  \<^verbatim>\<open>&item[V]{...}\<close> and \<^verbatim>\<open>*p = it\<close>.
\<close>

definition map_index :: "addr \<Rightarrow> 'k key \<Rightarrow> ('k, 'i, 'z) memory_scheme \<Rightarrow> addr option outcome" where
  "map_index mp key m = mapaccess key (maps m mp)"

definition map_assign ::
  "addr \<Rightarrow> 'k key \<Rightarrow> addr \<Rightarrow> ('k, 'i, 'z) memory_scheme \<Rightarrow>
   ('k, 'i, 'z) memory_scheme outcome" where
  "map_assign mp key p m =
     andThen (mapassign key p (maps m mp)) (\<lambda>obj. Done (m\<lparr>maps := (maps m)(mp := obj)\<rparr>))"

definition map_delete ::
  "addr \<Rightarrow> 'k key \<Rightarrow> ('k, 'i, 'z) memory_scheme \<Rightarrow> ('k, 'i, 'z) memory_scheme outcome" where
  "map_delete mp key m =
     andThen (mapdelete key (maps m mp)) (\<lambda>obj. Done (m\<lparr>maps := (maps m)(mp := obj)\<rparr>))"

definition map_clear :: "addr \<Rightarrow> ('k, 'i, 'z) memory_scheme \<Rightarrow> ('k, 'i, 'z) memory_scheme" where
  "map_clear mp m = m\<lparr>maps := (maps m)(mp := empty_map)\<rparr>"

definition map_len :: "addr \<Rightarrow> ('k, 'i, 'z) memory_scheme \<Rightarrow> nat" where
  "map_len mp m =
     fcard (fmdom (reachable (maps m mp))) + size (unreachable (maps m mp))"

definition make_map ::
  "nat \<Rightarrow> ('k, 'i, 'z) memory_scheme \<Rightarrow> addr \<times> ('k, 'i, 'z) memory_scheme" where
  "make_map n m =
     (next_map m, m\<lparr>maps := (maps m)(next_map m := empty_map), next_map := Suc (next_map m)\<rparr>)"

definition new_item ::
  "'i \<Rightarrow> ('k, 'i, 'z) memory_scheme \<Rightarrow> addr \<times> ('k, 'i, 'z) memory_scheme" where
  "new_item it m =
     (next_item m, m\<lparr>items := (items m)(next_item m := it), next_item := Suc (next_item m)\<rparr>)"

definition item_store ::
  "addr \<Rightarrow> 'i \<Rightarrow> ('k, 'i, 'z) memory_scheme \<Rightarrow> ('k, 'i, 'z) memory_scheme" where
  "item_store p it m = m\<lparr>items := (items m)(p := it)\<rparr>"

text \<open>
  \<^verbatim>\<open>maps.Copy(dst, src)\<close>: every entry of \<open>src\<close> is assigned in \<open>dst\<close>, with the value (here:
  the item address) it has in \<open>src\<close>. The keys come from a map, so they can be hashed.
\<close>

definition maps_Copy ::
  "addr \<Rightarrow> addr \<Rightarrow> ('k, 'i, 'z) memory_scheme \<Rightarrow> ('k, 'i, 'z) memory_scheme" where
  "maps_Copy dst src m =
     m\<lparr>maps := (maps m)(dst :=
          \<lparr>reachable = fmadd (reachable (maps m dst)) (reachable (maps m src)),
           unreachable = unreachable (maps m dst) + unreachable (maps m src)\<rparr>)\<rparr>"

text \<open>The map object of the \<^verbatim>\<open>TtlMap\<close>: what \<^verbatim>\<open>m.entries\<close> refers to.\<close>

abbreviation table :: "('k, 'i, 'z) guarded_scheme \<Rightarrow> 'k map_object" where
  "table m \<equiv> maps m (entries m)"

abbreviation found :: "('k, 'i, 'z) guarded_scheme \<Rightarrow> ('k, addr) fmap" where
  "found m \<equiv> reachable (maps m (entries m))"

abbreviation lost :: "('k, 'i, 'z) guarded_scheme \<Rightarrow> ('k \<times> addr) multiset" where
  "lost m \<equiv> unreachable (maps m (entries m))"

subsection \<open>The methods of version 0.1.1\<close>

text \<open>
  \<^verbatim>\<open>func New[K Key, V any](capacity uint, ttl, pruneInterval time.Duration) *TtlMap[K, V]\<close>,
  called in memory \<open>h\<close>. It allocates the map, fills in the struct, starts the goroutine
  and returns; it has no failing path and inspects neither duration.
\<close>

definition New ::
  "nat \<Rightarrow> int64 \<Rightarrow> int64 \<Rightarrow> ('k, 'v item) memory \<Rightarrow> ('k, 'v) state outcome" where
  "New capacity t interval h =
     (let (mp, h1) = make_map capacity h
      in Done \<lparr>maps = maps h1, items = items h1, next_map = next_map h1,
               next_item = next_item h1, entries = mp, lock = Unlocked, ttl = t,
               pruneInterval = interval, sweeper = Spawned, ticker = NoTicker\<rparr>)"

text \<open>
  \<^verbatim>\<open>Len\<close>: read lock, \<^verbatim>\<open>uint(len(m.entries))\<close>, read unlock (deferred).
\<close>

definition Len :: "('k, 'v) state \<Rightarrow> (nat \<times> ('k, 'v) state) outcome" where
  "Len m =
     andThen (lock_RLock m) (\<lambda>m1.
       let size = map_len (entries m1) m1
       in andThen (lock_RUnlock m1) (\<lambda>m2. Done (size, m2)))"

text \<open>
  \<^verbatim>\<open>Put\<close>, called when \<^verbatim>\<open>time.Now()\<close> reads \<open>now\<close> (in nanoseconds since the Unix epoch).
  \<^verbatim>\<open>time.Now().Add(m.ttl).UnixNano()\<close> is the 64-bit sum of the two, which wraps around.
  When the assignment panics, the deferred \<^verbatim>\<open>Unlock\<close> runs and the panic goes on to the
  caller.
\<close>

definition Put :: "'k key \<Rightarrow> 'v \<Rightarrow> int64 \<Rightarrow> ('k, 'v) state \<Rightarrow> ('k, 'v) state outcome" where
  "Put key val now m =
     andThen (lock_Lock m) (\<lambda>m1.
       let (p, m2) = new_item \<lparr>item_value = val, expires = now + ttl m1\<rparr> m1
       in andThen (map_assign (entries m2) key p m2) lock_Unlock)"

text \<open>
  \<^verbatim>\<open>Get\<close> and \<^verbatim>\<open>GetOrZero\<close>; \<open>zero\<close> is the zero value of the type \<^verbatim>\<open>V\<close>, which the result
  variable \<^verbatim>\<open>value\<close> holds unless the key is found.
\<close>

definition Get ::
  "'v \<Rightarrow> 'k key \<Rightarrow> ('k, 'v) state \<Rightarrow> (('v \<times> bool) \<times> ('k, 'v) state) outcome" where
  "Get zero key m =
     andThen (lock_RLock m) (\<lambda>m1.
       andThen (map_index (entries m1) key m1) (\<lambda>r.
         let (val, ok) = (case r of
                            Some p \<Rightarrow> (item_value (items m1 p), True)
                          | None \<Rightarrow> (zero, False))
         in andThen (lock_RUnlock m1) (\<lambda>m2. Done ((val, ok), m2))))"

definition GetOrZero :: "'v \<Rightarrow> 'k key \<Rightarrow> ('k, 'v) state \<Rightarrow> ('v \<times> ('k, 'v) state) outcome" where
  "GetOrZero zero key m =
     andThen (lock_RLock m) (\<lambda>m1.
       andThen (map_index (entries m1) key m1) (\<lambda>r.
         let val = (case r of
                      Some p \<Rightarrow> item_value (items m1 p)
                    | None \<Rightarrow> zero)
         in andThen (lock_RUnlock m1) (\<lambda>m2. Done (val, m2))))"

definition Delete :: "'k key \<Rightarrow> ('k, 'v) state \<Rightarrow> (bool \<times> ('k, 'v) state) outcome" where
  "Delete key m =
     andThen (lock_Lock m) (\<lambda>m1.
       andThen (map_index (entries m1) key m1) (\<lambda>r.
         case r of
           None \<Rightarrow> andThen (lock_Unlock m1) (\<lambda>m2. Done (False, m2))
         | Some p \<Rightarrow>
             andThen (map_delete (entries m1) key m1) (\<lambda>m2.
               andThen (lock_Unlock m2) (\<lambda>m3. Done (True, m3)))))"

definition Clear :: "('k, 'v) state \<Rightarrow> ('k, 'v) state outcome" where
  "Clear m = andThen (lock_Lock m) (\<lambda>m1. lock_Unlock (map_clear (entries m1) m1))"

text \<open>\<^verbatim>\<open>Copy\<close> returns the address of a new map object.\<close>

definition Copy :: "('k, 'v) state \<Rightarrow> (addr \<times> ('k, 'v) state) outcome" where
  "Copy m =
     andThen (lock_Lock m) (\<lambda>m1.
       let (dst, m2) = make_map (map_len (entries m1) m1) m1
       in andThen (lock_Unlock (maps_Copy dst (entries m2) m2)) (\<lambda>m3. Done (dst, m3)))"

subsection \<open>The prune goroutine\<close>

text \<open>
  The goroutine begins with \<^verbatim>\<open>time.NewTicker(pruneInterval)\<close>, which panics for a
  non-positive interval (as the \<^verbatim>\<open>time\<close> package documents). A panic in a goroutine is
  not delivered to the caller of \<^verbatim>\<open>New\<close>.
\<close>

definition sweeper_start :: "('k, 'v) state \<Rightarrow> ('k, 'v) state outcome" where
  "sweeper_start m =
     (case sweeper m of
        Spawned \<Rightarrow>
          if pruneInterval m \<le>s 0 then Fault NonPositiveTickerInterval
          else Done (m\<lparr>sweeper := Running, ticker := Ticking (pruneInterval m)\<rparr>)
      | _ \<Rightarrow> Blocks)"

text \<open>
  The body of \<^verbatim>\<open>for k, v := range m.entries\<close>, for the entries in the order \<open>es\<close> in which
  the runtime produces them. Only what is an entry of the map when its turn comes is
  produced.
\<close>

fun prune_range ::
  "int64 \<Rightarrow> ('k key \<times> addr) list \<Rightarrow> ('k, 'v) state \<Rightarrow> ('k, 'v) state outcome" where
  "prune_range currentTime [] m = Done m"
| "prune_range currentTime ((k, v) # es) m =
     (if is_entry k v (table m) \<and> expires (items m v) \<le>s currentTime
      then andThen (map_delete (entries m) k m) (prune_range currentTime es)
      else prune_range currentTime es m)"

text \<open>
  One pass of the \<^verbatim>\<open>select\<close>: a receive from \<^verbatim>\<open>ticker.C\<close> of the time \<open>now\<close> (as
  \<^verbatim>\<open>now.UnixNano()\<close>), or a receive from \<^verbatim>\<open>stop\<close>, after which the goroutine returns and
  its deferred \<^verbatim>\<open>ticker.Stop()\<close> runs. Outside the loop there is no such pass.
\<close>

definition sweeper_tick ::
  "int64 \<Rightarrow> ('k key \<times> addr) list \<Rightarrow> ('k, 'v) state \<Rightarrow> ('k, 'v) state outcome" where
  "sweeper_tick now es m =
     (case sweeper m of
        Running \<Rightarrow> andThen (lock_Lock m) (\<lambda>m1. andThen (prune_range now es m1) lock_Unlock)
      | _ \<Rightarrow> Blocks)"

definition sweeper_stop :: "('k, 'v) state \<Rightarrow> ('k, 'v) state outcome" where
  "sweeper_stop m =
     (case sweeper m of
        Running \<Rightarrow> Done (m\<lparr>sweeper := Stopped, ticker := TickerStopped\<rparr>)
      | _ \<Rightarrow> Blocks)"

text \<open>
  \<^verbatim>\<open>Close\<close>: the send \<^verbatim>\<open>m.stop <- struct{}{}\<close> completes with the goroutine's receive, then
  \<^verbatim>\<open>m.Clear()\<close>.
\<close>

definition Close :: "('k, 'v) state \<Rightarrow> ('k, 'v) state outcome" where
  "Close m = andThen (sweeper_stop m) Clear"

subsection \<open>Version 0.1.0\<close>

text \<open>
  \<^verbatim>\<open>Delete\<close> of version 0.1.0 defers \<^verbatim>\<open>m.lock.Unlock()\<close> and also calls it before
  \<^verbatim>\<open>return false\<close>; the deferred call runs after that.
\<close>

definition Delete_v010 ::
  "'k key \<Rightarrow> ('k, 'v) state_v010 \<Rightarrow> (bool \<times> ('k, 'v) state_v010) outcome" where
  "Delete_v010 key m =
     andThen (lock_Lock m) (\<lambda>m1.
       andThen (map_index (entries m1) key m1) (\<lambda>r.
         case r of
           None \<Rightarrow>
             andThen (lock_Unlock m1) (\<lambda>m2.
               andThen (lock_Unlock m2) (\<lambda>m3. Done (False, m3)))
         | Some p \<Rightarrow>
             andThen (map_delete (entries m1) key m1) (\<lambda>m2.
               andThen (lock_Unlock m2) (\<lambda>m3. Done (True, m3)))))"

subsection \<open>Sequences of calls\<close>

text \<open>
  A history of the map: calls of the methods and steps of the goroutine, in the order in
  which they take the lock. \<open>exec\<close> runs one of them and keeps the state only.
\<close>

datatype ('k, 'v) call =
    CallPut "'k key" 'v int64
  | CallGet "'k key"
  | CallGetOrZero "'k key"
  | CallDelete "'k key"
  | CallClear
  | CallLen
  | CallCopy
  | CallClose
  | SweeperStart
  | SweeperTick int64 "('k key \<times> addr) list"

fun is_Put :: "('k, 'v) call \<Rightarrow> bool" where
  "is_Put (CallPut key val now) = True"
| "is_Put c = False"

fun exec :: "'v \<Rightarrow> ('k, 'v) call \<Rightarrow> ('k, 'v) state \<Rightarrow> ('k, 'v) state outcome" where
  "exec zero (CallPut key val now) m = Put key val now m"
| "exec zero (CallGet key) m = andThen (Get zero key m) (\<lambda>r. Done (snd r))"
| "exec zero (CallGetOrZero key) m = andThen (GetOrZero zero key m) (\<lambda>r. Done (snd r))"
| "exec zero (CallDelete key) m = andThen (Delete key m) (\<lambda>r. Done (snd r))"
| "exec zero CallClear m = Clear m"
| "exec zero CallLen m = andThen (Len m) (\<lambda>r. Done (snd r))"
| "exec zero CallCopy m = andThen (Copy m) (\<lambda>r. Done (snd r))"
| "exec zero CallClose m = Close m"
| "exec zero SweeperStart m = sweeper_start m"
| "exec zero (SweeperTick now es) m = sweeper_tick now es m"

fun run :: "'v \<Rightarrow> ('k, 'v) call list \<Rightarrow> ('k, 'v) state \<Rightarrow> ('k, 'v) state outcome" where
  "run zero [] m = Done m"
| "run zero (c # cs) m = andThen (exec zero c m) (run zero cs)"

text \<open>
  The \<^verbatim>\<open>Put\<close> calls of a history, by the address of the item each of them allocates: the
  first allocates at \<open>n\<close>, the next at \<open>n + 1\<close>, and so on. The log holds the key, the value
  and the time of the call.
\<close>

fun put_log ::
  "('k, 'v) call list \<Rightarrow> addr \<Rightarrow> (addr \<rightharpoonup> 'k key \<times> 'v \<times> int64) \<Rightarrow>
   (addr \<rightharpoonup> 'k key \<times> 'v \<times> int64)" where
  "put_log [] n w = w"
| "put_log (CallPut key val now # cs) n w = put_log cs (Suc n) (w(n \<mapsto> (key, val, now)))"
| "put_log (c # cs) n w = put_log cs n w"

text \<open>
  The time of the latest \<^verbatim>\<open>Put\<close> in a history, for each key equal to itself, starting
  from \<open>w\<close>.
\<close>

fun put_times :: "('k, 'v) call list \<Rightarrow> ('k \<rightharpoonup> int64) \<Rightarrow> ('k \<rightharpoonup> int64)" where
  "put_times [] w = w"
| "put_times (CallPut (Key k) val now # cs) w = put_times cs (w(k \<mapsto> now))"
| "put_times (c # cs) w = put_times cs w"

text \<open>The values a call returns, without the state.\<close>

fun returned :: "('a \<times> 's) outcome \<Rightarrow> 'a option" where
  "returned (Done r) = Some (fst r)"
| "returned (Fault e) = None"
| "returned Blocks = None"

text \<open>The sum of a time and a duration is representable in 64 bits.\<close>

definition fits_int64 :: "int64 \<Rightarrow> int64 \<Rightarrow> bool" where
  "fits_int64 a b \<longleftrightarrow> - (2 ^ 63) \<le> sint a + sint b \<and> sint a + sint b < 2 ^ 63"

subsection \<open>Example states\<close>

text \<open>
  An empty memory; the map of the package's tests, \<^verbatim>\<open>New[string, string](3, 2s, 3s)\<close>, once
  its goroutine is in its loop; and the same map after \<^verbatim>\<open>Put("myString", "a b c")\<close> at time
  \<open>1000\<close>.
\<close>

definition mem0 :: "(string, string item) memory" where
  "mem0 = \<lparr>maps = (\<lambda>a. empty_map), items = (\<lambda>a. \<lparr>item_value = [], expires = 0\<rparr>),
           next_map = 0, next_item = 0\<rparr>"

definition tm_new :: "(string, string) state" where
  "tm_new = \<lparr>maps = (\<lambda>a. empty_map), items = (\<lambda>a. \<lparr>item_value = [], expires = 0\<rparr>),
             next_map = 1, next_item = 0, entries = 0, lock = Unlocked,
             ttl = 2000000000, pruneInterval = 3000000000,
             sweeper = Running, ticker = Ticking 3000000000\<rparr>"

definition tm_one :: "(string, string) state" where
  "tm_one = tm_new\<lparr>maps := (\<lambda>a. empty_map)
                              (0 := \<lparr>reachable = fmupd ''myString'' 0 fmempty, unreachable = {#}\<rparr>),
                   items := (\<lambda>a. \<lparr>item_value = [], expires = 0\<rparr>)
                              (0 := \<lparr>item_value = ''a b c'', expires = 2000001000\<rparr>),
                   next_item := 1\<rparr>"

definition tm_v010 :: "(string, string) state_v010" where
  "tm_v010 = \<lparr>maps = (\<lambda>a. empty_map)
                        (0 := \<lparr>reachable = fmupd ''myString'' 0 fmempty, unreachable = {#}\<rparr>),
              items = (\<lambda>a. \<lparr>item_value_v010 = [], lastAccess = 0\<rparr>)
                        (0 := \<lparr>item_value_v010 = ''a b c'', lastAccess = 1\<rparr>),
              next_map = 1, next_item = 1, entries = 0, lock = Unlocked\<rparr>"

text \<open>The state after \<^verbatim>\<open>tm.Copy()\<close> in \<open>tm_one\<close>; the copy is the map object at address 1.\<close>

definition tm_copied :: "(string, string) state" where
  "tm_copied = tm_one\<lparr>maps := (maps tm_one)(1 := table tm_one), next_map := 2\<rparr>"

text \<open>A history that leads from \<open>mem0\<close> to \<open>tm_one\<close>.\<close>

definition calls_one :: "(string, string) call list" where
  "calls_one =
     [SweeperStart, CallPut (Key ''myString'') ''a b c'' 1000, CallGet (Key ''myString'')]"

text \<open>
  A map with floating-point keys, as in the package's test \<^verbatim>\<open>TestUFloat32Key\<close> (the numbers
  stand for the key values): \<^verbatim>\<open>New[float32, string](3, 2s, 3s)\<close> with its goroutine in its
  loop, and the same map after \<^verbatim>\<open>Put(NaN, "v")\<close> at time \<open>1000\<close>.
\<close>

definition tm_f32 :: "(int, string) state" where
  "tm_f32 = \<lparr>maps = (\<lambda>a. empty_map), items = (\<lambda>a. \<lparr>item_value = [], expires = 0\<rparr>),
             next_map = 1, next_item = 0, entries = 0, lock = Unlocked,
             ttl = 2000000000, pruneInterval = 3000000000,
             sweeper = Running, ticker = Ticking 3000000000\<rparr>"

definition tm_nan :: "(int, string) state" where
  "tm_nan = tm_f32\<lparr>maps := (\<lambda>a. empty_map)
                              (0 := \<lparr>reachable = fmempty, unreachable = {#(0, 0)#}\<rparr>),
                   items := (\<lambda>a. \<lparr>item_value = [], expires = 0\<rparr>)
                              (0 := \<lparr>item_value = ''v'', expires = 2000001000\<rparr>),
                   next_item := 1\<rparr>"

text \<open>
  A map whose entries are meant never to expire: \<^verbatim>\<open>New[string, string](3, math.MaxInt64,
  3s)\<close>, with its goroutine in its loop.
\<close>

definition tm_forever :: "(string, string) state" where
  "tm_forever = tm_new\<lparr>ttl := 9223372036854775807\<rparr>"

text \<open>
  The history \<^verbatim>\<open>New[string, string](3, math.MaxInt64, 3s)\<close>, then \<^verbatim>\<open>Put("k", "v")\<close> at time
  \<open>1000\<close>, and the state it leads to from \<open>mem0\<close>.
\<close>

definition calls_forever :: "(string, string) call list" where
  "calls_forever = [SweeperStart, CallPut (Key ''k'') ''v'' 1000]"

definition tm_forever_one :: "(string, string) state" where
  "tm_forever_one =
     tm_forever\<lparr>maps := (\<lambda>a. empty_map)
                            (0 := \<lparr>reachable = fmupd ''k'' 0 fmempty, unreachable = {#}\<rparr>),
                 items := (\<lambda>a. \<lparr>item_value = [], expires = 0\<rparr>)
                            (0 := \<lparr>item_value = ''v'', expires = 1000 + 9223372036854775807\<rparr>),
                 next_item := 1\<rparr>"

section \<open>Properties\<close>

subsection \<open>What each call computes when the lock is free\<close>

lemma map_object_eta [simp]:
  "\<lparr>reachable = reachable obj, unreachable = unreachable obj\<rparr> = obj"
  by (cases obj) simp

lemma Put_Done:
  "lock m = Unlocked \<Longrightarrow>
   Put (Key k) val now m =
     Done (m\<lparr>maps := (maps m)(entries m := (table m)\<lparr>reachable := fmupd k (next_item m) (found m)\<rparr>),
             items := (items m)(next_item m := \<lparr>item_value = val, expires = now + ttl m\<rparr>),
             next_item := Suc (next_item m)\<rparr>)"
  by (simp add: Put_def lock_Lock_def lock_Unlock_def new_item_def map_assign_def)

lemma Put_NaN_Done:
  "lock m = Unlocked \<Longrightarrow>
   Put (NaNKey k) val now m =
     Done (m\<lparr>maps := (maps m)(entries m :=
                      (table m)\<lparr>unreachable := add_mset (k, next_item m) (lost m)\<rparr>),
             items := (items m)(next_item m := \<lparr>item_value = val, expires = now + ttl m\<rparr>),
             next_item := Suc (next_item m)\<rparr>)"
  by (simp add: Put_def lock_Lock_def lock_Unlock_def new_item_def map_assign_def)

lemma Put_Unhashable:
  "lock m = Unlocked \<Longrightarrow> Put Unhashable val now m = Fault HashOfUnhashableType"
  by (simp add: Put_def lock_Lock_def new_item_def map_assign_def)

lemma Get_Done:
  "lock m = Unlocked \<Longrightarrow>
   Get zero (Key k) m =
     Done ((case fmlookup (found m) k of
              Some p \<Rightarrow> (item_value (items m p), True)
            | None \<Rightarrow> (zero, False)), m)"
  by (simp add: Get_def lock_RLock_def lock_RUnlock_def map_index_def split: option.splits)

lemma Get_NaN_Done:
  "lock m = Unlocked \<Longrightarrow> Get zero (NaNKey k) m = Done ((zero, False), m)"
  by (simp add: Get_def lock_RLock_def lock_RUnlock_def map_index_def)

lemma Get_Unhashable:
  "lock m = Unlocked \<Longrightarrow> Get zero Unhashable m = Fault HashOfUnhashableType"
  by (simp add: Get_def lock_RLock_def map_index_def)

lemma GetOrZero_Done:
  "lock m = Unlocked \<Longrightarrow>
   GetOrZero zero (Key k) m =
     Done ((case fmlookup (found m) k of
              Some p \<Rightarrow> item_value (items m p)
            | None \<Rightarrow> zero), m)"
  by (simp add: GetOrZero_def lock_RLock_def lock_RUnlock_def map_index_def split: option.splits)

lemma GetOrZero_NaN_Done:
  "lock m = Unlocked \<Longrightarrow> GetOrZero zero (NaNKey k) m = Done (zero, m)"
  by (simp add: GetOrZero_def lock_RLock_def lock_RUnlock_def map_index_def)

lemma GetOrZero_Unhashable:
  "lock m = Unlocked \<Longrightarrow> GetOrZero zero Unhashable m = Fault HashOfUnhashableType"
  by (simp add: GetOrZero_def lock_RLock_def map_index_def)

lemma Len_Done:
  "lock m = Unlocked \<Longrightarrow> Len m = Done (fcard (fmdom (found m)) + size (lost m), m)"
  by (simp add: Len_def lock_RLock_def lock_RUnlock_def map_len_def)

lemma Delete_Done:
  "lock m = Unlocked \<Longrightarrow>
   Delete (Key k) m =
     (case fmlookup (found m) k of
        None \<Rightarrow> Done (False, m)
      | Some p \<Rightarrow>
          Done (True, m\<lparr>maps := (maps m)(entries m :=
                                     (table m)\<lparr>reachable := fmdrop k (found m)\<rparr>)\<rparr>))"
  by (simp add: Delete_def lock_Lock_def lock_Unlock_def map_index_def map_delete_def
      split: option.splits)

lemma Delete_NaN_Done:
  "lock m = Unlocked \<Longrightarrow> Delete (NaNKey k) m = Done (False, m)"
  by (simp add: Delete_def lock_Lock_def lock_Unlock_def map_index_def)

lemma Delete_Unhashable:
  "lock m = Unlocked \<Longrightarrow> Delete Unhashable m = Fault HashOfUnhashableType"
  by (simp add: Delete_def lock_Lock_def map_index_def)

lemma Clear_Done:
  "lock m = Unlocked \<Longrightarrow> Clear m = Done (m\<lparr>maps := (maps m)(entries m := empty_map)\<rparr>)"
  by (simp add: Clear_def lock_Lock_def lock_Unlock_def map_clear_def)

lemma Copy_Done:
  "lock m = Unlocked \<Longrightarrow> entries m \<noteq> next_map m \<Longrightarrow>
   Copy m =
     Done (next_map m,
           m\<lparr>maps := (maps m)(next_map m := table m), next_map := Suc (next_map m)\<rparr>)"
  by (simp add: Copy_def lock_Lock_def lock_Unlock_def make_map_def maps_Copy_def empty_map_def)

lemma New_Done:
  "New capacity t interval h =
     Done \<lparr>maps = (maps h)(next_map h := empty_map), items = items h,
           next_map = Suc (next_map h), next_item = next_item h,
           entries = next_map h, lock = Unlocked, ttl = t, pruneInterval = interval,
           sweeper = Spawned, ticker = NoTicker\<rparr>"
  by (simp add: New_def make_map_def)

lemma not_sle_iff: "\<not> (a :: int64) \<le>s b \<longleftrightarrow> b <s a"
  by (simp add: word_sle_eq word_sless_alt not_le)

text \<open>
  The pass over the entries changes the reachable part of the table only: it drops the
  keys whose entry is visited and expired.
\<close>

lemma prune_range_result:
  "\<exists>R. prune_range t es m =
          Done (m\<lparr>maps := (maps m)(entries m := (table m)\<lparr>reachable := R\<rparr>)\<rparr>) \<and>
        (\<forall>k. fmlookup R k =
           (case fmlookup (found m) k of
              None \<Rightarrow> None
            | Some p \<Rightarrow>
                if (Key k, p) \<in> set es \<and> expires (items m p) \<le>s t then None else Some p))"
proof (induction es arbitrary: m)
  case Nil
  show ?case by (rule exI [of _ "found m"]) (simp split: option.splits)
next
  case (Cons e es)
  obtain key v where e: "e = (key, v)" by (cases e)
  from Cons.IH [of m] obtain R
    where R: "prune_range t es m = Done (m\<lparr>maps := (maps m)(entries m := (table m)\<lparr>reachable := R\<rparr>)\<rparr>)"
      and Rl: "\<And>k. fmlookup R k =
         (case fmlookup (found m) k of
            None \<Rightarrow> None
          | Some p \<Rightarrow> if (Key k, p) \<in> set es \<and> expires (items m p) \<le>s t then None else Some p)"
    by blast
  show ?case
  proof (cases "is_entry key v (table m) \<and> expires (items m v) \<le>s t")
    case False
    then have step: "prune_range t (e # es) m = prune_range t es m"
      by (auto simp: e)
    have "fmlookup R k =
         (case fmlookup (found m) k of
            None \<Rightarrow> None
          | Some p \<Rightarrow>
              if (Key k, p) \<in> set (e # es) \<and> expires (items m p) \<le>s t then None else Some p)"
      for k
      using False by (auto simp: Rl e split: option.splits)
    with R show ?thesis unfolding step by blast
  next
    case True
    show ?thesis
    proof (cases key)
      case (Key k0)
      let ?m1 = "m\<lparr>maps := (maps m)(entries m := (table m)\<lparr>reachable := fmdrop k0 (found m)\<rparr>)\<rparr>"
      have step: "prune_range t (e # es) m = prune_range t es ?m1"
        using True by (simp add: e Key map_delete_def)
      from Cons.IH [of ?m1] obtain R1
        where R1: "prune_range t es ?m1 =
                     Done (?m1\<lparr>maps := (maps ?m1)(entries ?m1 := (table ?m1)\<lparr>reachable := R1\<rparr>)\<rparr>)"
          and R1l: "\<And>k. fmlookup R1 k =
             (case fmlookup (found ?m1) k of
                None \<Rightarrow> None
              | Some p \<Rightarrow>
                  if (Key k, p) \<in> set es \<and> expires (items ?m1 p) \<le>s t then None else Some p)"
        by blast
      have same: "?m1\<lparr>maps := (maps ?m1)(entries ?m1 := (table ?m1)\<lparr>reachable := R1\<rparr>)\<rparr> =
                  m\<lparr>maps := (maps m)(entries m := (table m)\<lparr>reachable := R1\<rparr>)\<rparr>"
        by simp
      have "fmlookup R1 k =
           (case fmlookup (found m) k of
              None \<Rightarrow> None
            | Some p \<Rightarrow>
                if (Key k, p) \<in> set (e # es) \<and> expires (items m p) \<le>s t then None else Some p)"
        for k
        using True by (auto simp: R1l e Key split: option.splits)
      moreover from R1 same have "prune_range t es ?m1 =
          Done (m\<lparr>maps := (maps m)(entries m := (table m)\<lparr>reachable := R1\<rparr>)\<rparr>)"
        by simp
      ultimately show ?thesis unfolding step by blast
    next
      case (NaNKey k0)
      have step: "prune_range t (e # es) m = prune_range t es m"
        using True by (simp add: e NaNKey map_delete_def)
      have "fmlookup R k =
           (case fmlookup (found m) k of
              None \<Rightarrow> None
            | Some p \<Rightarrow>
                if (Key k, p) \<in> set (e # es) \<and> expires (items m p) \<le>s t then None else Some p)"
        for k
        by (auto simp: Rl e NaNKey split: option.splits)
      with R show ?thesis unfolding step by blast
    next
      case Unhashable
      with True show ?thesis by simp
    qed
  qed
qed

lemma sweeper_tick_Done:
  assumes "lock m = Unlocked" and "sweeper m = Running"
  shows "\<exists>R. sweeper_tick now es m =
            Done (m\<lparr>maps := (maps m)(entries m := (table m)\<lparr>reachable := R\<rparr>)\<rparr>) \<and>
          (\<forall>k. fmlookup R k =
             (case fmlookup (found m) k of
                None \<Rightarrow> None
              | Some p \<Rightarrow>
                  if (Key k, p) \<in> set es \<and> expires (items m p) \<le>s now then None else Some p))"
proof -
  let ?m1 = "m\<lparr>lock := WriteLocked\<rparr>"
  from prune_range_result [of now es ?m1] obtain R
    where R: "prune_range now es ?m1 =
                Done (?m1\<lparr>maps := (maps ?m1)(entries ?m1 := (table ?m1)\<lparr>reachable := R\<rparr>)\<rparr>)"
      and Rl: "\<And>k. fmlookup R k =
         (case fmlookup (found ?m1) k of
            None \<Rightarrow> None
          | Some p \<Rightarrow>
              if (Key k, p) \<in> set es \<and> expires (items ?m1 p) \<le>s now then None else Some p)"
    by blast
  have "sweeper_tick now es m = andThen (prune_range now es ?m1) lock_Unlock"
    using assms by (simp add: sweeper_tick_def lock_Lock_def)
  also have "\<dots> = Done (m\<lparr>maps := (maps m)(entries m := (table m)\<lparr>reachable := R\<rparr>)\<rparr>)"
    unfolding R using assms(1) by (simp add: lock_Unlock_def)
  finally have a: "sweeper_tick now es m =
      Done (m\<lparr>maps := (maps m)(entries m := (table m)\<lparr>reachable := R\<rparr>)\<rparr>)" .
  have "fmlookup R k =
         (case fmlookup (found m) k of
            None \<Rightarrow> None
          | Some p \<Rightarrow>
              if (Key k, p) \<in> set es \<and> expires (items m p) \<le>s now then None else Some p)" for k
    using Rl [of k] by (simp cong: option.case_cong)
  with a show ?thesis by blast
qed

lemma tick_removes_expired:
  assumes "lock m = Unlocked" and "sweeper m = Running"
    and "fmlookup (found m) k = Some p" and "expires (items m p) \<le>s now"
    and "(Key k, p) \<in> set es"
  shows "\<exists>m'. sweeper_tick now es m = Done m' \<and> lock m' = Unlocked \<and>
           fmlookup (found m') k = None \<and> lost m' = lost m \<and>
           fmdom (found m') |\<subseteq>| fmdom (found m) |-| {|k|}"
proof -
  from sweeper_tick_Done [OF assms(1,2), of now es] obtain R
    where tick: "sweeper_tick now es m =
                   Done (m\<lparr>maps := (maps m)(entries m := (table m)\<lparr>reachable := R\<rparr>)\<rparr>)"
      and R: "\<And>k. fmlookup R k =
         (case fmlookup (found m) k of
            None \<Rightarrow> None
          | Some p \<Rightarrow>
              if (Key k, p) \<in> set es \<and> expires (items m p) \<le>s now then None else Some p)"
    by blast
  let ?m' = "m\<lparr>maps := (maps m)(entries m := (table m)\<lparr>reachable := R\<rparr>)\<rparr>"
  have gone: "fmlookup (found ?m') k = None"
    using assms(3-5) by (simp add: R)
  have "fmdom (found ?m') |\<subseteq>| fmdom (found m) |-| {|k|}"
  proof
    fix k' assume "k' |\<in>| fmdom (found ?m')"
    then obtain q where q: "fmlookup (found ?m') k' = Some q"
      by (auto simp: fmlookup_dom_iff)
    then have "fmlookup (found m) k' \<noteq> None"
      by (auto simp: R split: option.splits)
    moreover have "k' \<noteq> k" using q gone by auto
    ultimately show "k' |\<in>| fmdom (found m) |-| {|k|}"
      by (auto simp: fmlookup_dom_iff)
  qed
  with tick gone show ?thesis using assms(1) by (intro exI [of _ ?m']) simp
qed


lemma tick_keeps_lost:
  assumes "lock m = Unlocked" and "sweeper m = Running"
  shows "\<exists>m'. sweeper_tick t es m = Done m' \<and> lock m' = Unlocked \<and>
           lost m' = lost m \<and> items m' = items m"
proof -
  from sweeper_tick_Done [OF assms(1,2), of t es] obtain R
    where tick: "sweeper_tick t es m =
                   Done (m\<lparr>maps := (maps m)(entries m := (table m)\<lparr>reachable := R\<rparr>)\<rparr>)"
    by blast
  then show ?thesis using assms(1)
    by (intro exI [of _ "m\<lparr>maps := (maps m)(entries m := (table m)\<lparr>reachable := R\<rparr>)\<rparr>"]) simp
qed

text \<open>Without overflow the 64-bit sum is the sum.\<close>

lemma sint_plus_fits:
  "fits_int64 a b \<Longrightarrow> sint (a + b) = sint a + sint b"
  by (simp add: fits_int64_def sint_word_ariths signed_take_bit_int_eq_self)

subsection \<open>The sweep\<close>

text \<open>
  Claim C1, as amended. On a tick of the sweeper that delivers the time \<open>now\<close>, with the lock
  free and the \<^verbatim>\<open>range\<close> producing the entries of the table in any order \<open>es\<close>, the pass
  completes. An entry under a key equal to itself is deleted exactly when its \<open>expires\<close> is
  at most \<open>now\<close> (as signed 64-bit integers); every such entry with \<open>expires\<close> greater than
  \<open>now\<close> is still in the table, pointing to the same, unchanged item, and no entry is added.
  The entries under keys not equal to themselves are all left in the table: the
  \<^verbatim>\<open>delete\<close> of the loop does not find them.
\<close>

theorem sweep_deletes_found_iff_expired:
  assumes "lock m = Unlocked" and "sweeper m = Running"
    and "\<forall>k p. is_entry k p (table m) \<longrightarrow> (k, p) \<in> set es"
  shows "\<exists>m'. sweeper_tick now es m = Done m' \<and> items m' = items m \<and> lock m' = Unlocked \<and>
           (\<forall>k p. fmlookup (found m) k = Some p \<longrightarrow>
              (fmlookup (found m') k = None \<longleftrightarrow> expires (items m p) \<le>s now) \<and>
              (now <s expires (items m p) \<longrightarrow> fmlookup (found m') k = Some p)) \<and>
           (\<forall>k. fmlookup (found m) k = None \<longrightarrow> fmlookup (found m') k = None) \<and>
           lost m' = lost m"
proof -
  from sweeper_tick_Done [OF assms(1,2), of now es] obtain R
    where tick: "sweeper_tick now es m =
                   Done (m\<lparr>maps := (maps m)(entries m := (table m)\<lparr>reachable := R\<rparr>)\<rparr>)"
      and R: "\<And>k. fmlookup R k =
         (case fmlookup (found m) k of
            None \<Rightarrow> None
          | Some p \<Rightarrow>
              if (Key k, p) \<in> set es \<and> expires (items m p) \<le>s now then None else Some p)"
    by blast
  let ?m' = "m\<lparr>maps := (maps m)(entries m := (table m)\<lparr>reachable := R\<rparr>)\<rparr>"
  have visited: "(Key k, p) \<in> set es" if "fmlookup (found m) k = Some p" for k p
    using that assms(3) by (simp add: is_entry.simps(1) [symmetric] del: is_entry.simps)
  have present: "(fmlookup (found ?m') k = None \<longleftrightarrow> expires (items m p) \<le>s now) \<and>
                 (now <s expires (items m p) \<longrightarrow> fmlookup (found ?m') k = Some p)"
    if "fmlookup (found m) k = Some p" for k p
    using that visited [OF that] by (simp add: R flip: not_sle_iff)
  have absent: "fmlookup (found ?m') k = None" if "fmlookup (found m) k = None" for k
    using that by (simp add: R)
  show ?thesis
    using tick present absent assms(1) by (intro exI [of _ ?m']) simp
qed

theorem sweep_deletes_found_iff_expired_witness:
  "lock tm_one = Unlocked \<and> sweeper tm_one = Running \<and>
   is_entry (Key ''myString'') 0 (table tm_one) \<and>
   fmlookup (found tm_one) ''myString'' = Some 0 \<and>
   expires (items tm_one 0) \<le>s 2000001000 \<and> 2000000999 <s expires (items tm_one 0) \<and>
   (\<exists>m'. sweeper_tick 2000001000 [(Key ''myString'', 0)] tm_one = Done m' \<and>
         fmlookup (found m') ''myString'' = None) \<and>
   (\<exists>m'. sweeper_tick 2000000999 [(Key ''myString'', 0)] tm_one = Done m' \<and>
         fmlookup (found m') ''myString'' = Some 0)"
proof -
  have h: "lock tm_one = Unlocked" "sweeper tm_one = Running"
    by (simp_all add: tm_one_def tm_new_def)
  have c: "\<forall>k p. is_entry k p (table tm_one) \<longrightarrow> (k, p) \<in> set [(Key ''myString'', 0)]"
  proof (intro allI impI)
    fix k p assume "is_entry k p (table tm_one)"
    then show "(k, p) \<in> set [(Key ''myString'', 0)]"
      by (cases k) (auto simp: tm_one_def tm_new_def split: if_splits)
  qed
  have e: "fmlookup (found tm_one) ''myString'' = Some 0"
    "expires (items tm_one 0) \<le>s 2000001000" "2000000999 <s expires (items tm_one 0)"
    "is_entry (Key ''myString'') 0 (table tm_one)"
    by (simp_all add: tm_one_def tm_new_def word_sle_eq word_sless_alt)
  from sweep_deletes_found_iff_expired [OF h c, of 2000001000]
    sweep_deletes_found_iff_expired [OF h c, of 2000000999]
  show ?thesis using h e by fastforce
qed

theorem sweep_keeps_expired_NaN_counterexample:
  "is_entry (NaNKey 0) 0 (table tm_nan) \<and> expires (items tm_nan 0) \<le>s 5000000000 \<and>
   sweeper_tick 5000000000 [(NaNKey 0, 0)] tm_nan = Done tm_nan \<and>
   Len tm_nan = Done (1, tm_nan)"
  by (simp add: tm_nan_def tm_f32_def word_sle_eq sweeper_tick_def lock_Lock_def
      lock_Unlock_def map_delete_def Len_Done)

subsection \<open>Delete\<close>

text \<open>
  Claim C4, as amended. With the lock free, \<^verbatim>\<open>Delete\<close> of a key equal to itself returns
  normally, and returns \<open>true\<close> exactly when the key is present. When it is present the
  entry is removed (and \<^verbatim>\<open>Len\<close> is one less); when it is absent the call returns \<open>false\<close> and
  leaves the whole state, hence the table and \<^verbatim>\<open>Len\<close>, unchanged. Afterwards the key is
  absent, and deleting it again returns \<open>false\<close> and changes nothing. For a key not equal to
  itself \<^verbatim>\<open>Delete\<close> returns \<open>false\<close> and changes nothing, whatever the table holds; for a key
  that cannot be hashed it panics.
\<close>

theorem Delete_removes_iff_found:
  assumes "lock m = Unlocked"
  shows "(\<exists>removed m'. Delete (Key k) m = Done (removed, m') \<and>
            (removed \<longleftrightarrow> k |\<in>| fmdom (found m)) \<and>
            (removed \<longrightarrow>
               map_delete (entries m) (Key k) m = Done m' \<and>
               found m' = fmdrop k (found m) \<and> lost m' = lost m \<and>
               returned (Len m') = Some (fcard (fmdom (found m)) - 1 + size (lost m))) \<and>
            (\<not> removed \<longrightarrow> m' = m \<and> returned (Len m') = returned (Len m)) \<and>
            fmlookup (found m') k = None \<and>
            Delete (Key k) m' = Done (False, m')) \<and>
         Delete (NaNKey k) m = Done (False, m) \<and>
         Delete Unhashable m = Fault HashOfUnhashableType"
proof -
  have first: "\<exists>removed m'. Delete (Key k) m = Done (removed, m') \<and>
            (removed \<longleftrightarrow> k |\<in>| fmdom (found m)) \<and>
            (removed \<longrightarrow>
               map_delete (entries m) (Key k) m = Done m' \<and>
               found m' = fmdrop k (found m) \<and> lost m' = lost m \<and>
               returned (Len m') = Some (fcard (fmdom (found m)) - 1 + size (lost m))) \<and>
            (\<not> removed \<longrightarrow> m' = m \<and> returned (Len m') = returned (Len m)) \<and>
            fmlookup (found m') k = None \<and>
            Delete (Key k) m' = Done (False, m')"
  proof (cases "fmlookup (found m) k")
    case None
    then have "Delete (Key k) m = Done (False, m)"
      using assms by (simp add: Delete_Done)
    moreover have "k |\<notin>| fmdom (found m)"
      using None by (rule fmdom_notI)
    ultimately show ?thesis
      using None by (intro exI [of _ False] exI [of _ m]) simp
  next
    case (Some p)
    let ?m' = "m\<lparr>maps := (maps m)(entries m := (table m)\<lparr>reachable := fmdrop k (found m)\<rparr>)\<rparr>"
    have l: "lock ?m' = Unlocked" and t: "found ?m' = fmdrop k (found m)" "lost ?m' = lost m"
      using assms by simp_all
    have md: "map_delete (entries m) (Key k) m = Done ?m'"
      by (simp add: map_delete_def)
    have d: "Delete (Key k) m = Done (True, ?m')"
      using assms Some by (simp add: Delete_Done)
    have k: "k |\<in>| fmdom (found m)"
      using Some by (rule fmdomI)
    have n: "fmlookup (found ?m') k = None"
      by simp
    have again: "Delete (Key k) ?m' = Done (False, ?m')"
      using l n by (simp add: Delete_Done)
    have len: "returned (Len ?m') = Some (fcard (fmdom (found m)) - 1 + size (lost m))"
      using l k by (simp add: Len_Done fcard_fminus_fsingleton)
    show ?thesis
      using d k t n again len md by (intro exI [of _ True] exI [of _ ?m']) simp
  qed
  show ?thesis
    using first assms by (simp add: Delete_NaN_Done Delete_Unhashable)
qed

theorem Delete_removes_iff_found_witness:
  "lock tm_one = Unlocked \<and>
   ''myString'' |\<in>| fmdom (found tm_one) \<and> ''anotherString'' |\<notin>| fmdom (found tm_one) \<and>
   (\<exists>m'. Delete (Key ''myString'') tm_one = Done (True, m') \<and> returned (Len m') = Some 0 \<and>
         Delete (Key ''myString'') m' = Done (False, m')) \<and>
   Delete (Key ''anotherString'') tm_one = Done (False, tm_one) \<and>
   returned (Len tm_one) = Some 1"
proof -
  have h: "lock tm_one = Unlocked"
    by (simp add: tm_one_def tm_new_def)
  have k: "''myString'' |\<in>| fmdom (found tm_one)" "''anotherString'' |\<notin>| fmdom (found tm_one)"
    "fcard (fmdom (found tm_one)) = 1" "size (lost tm_one) = 0"
    by (simp_all add: tm_one_def tm_new_def fcard_finsert_if)
  from Delete_removes_iff_found [OF h, of "''myString''"]
    Delete_removes_iff_found [OF h, of "''anotherString''"]
  show ?thesis using h k by (auto simp: Len_Done)
qed

theorem Delete_misses_NaN_counterexample:
  "is_entry (NaNKey 0) 0 (table tm_nan) \<and> Len tm_nan = Done (1, tm_nan) \<and>
   Delete (NaNKey 0) tm_nan = Done (False, tm_nan)"
  by (simp add: tm_nan_def tm_f32_def Len_Done Delete_NaN_Done)

subsection \<open>Reading\<close>

text \<open>
  Claim C10, as amended. \<^verbatim>\<open>Get\<close> does not look at \<open>expires\<close>: with the lock free, for every
  key equal to itself that is in the table, whatever the expiry time of its item (in the
  past or not), \<^verbatim>\<open>Get\<close> returns the stored value and \<open>true\<close>, and \<^verbatim>\<open>GetOrZero\<close> returns the
  stored value; neither changes the state. The entry is visible until a tick of the sweeper
  at a time at or after its expiry removes it; from then on \<^verbatim>\<open>Get\<close> returns the zero value
  and \<open>false\<close>. For a key not equal to itself \<^verbatim>\<open>Get\<close> returns the zero value and \<open>false\<close>
  and \<^verbatim>\<open>GetOrZero\<close> the zero value, whatever the table holds.
\<close>

theorem Get_ignores_expiry:
  assumes "lock m = Unlocked" and "fmlookup (found m) k = Some p"
  shows "Get zero (Key k) m = Done ((item_value (items m p), True), m) \<and>
         GetOrZero zero (Key k) m = Done (item_value (items m p), m) \<and>
         (\<forall>now es. sweeper m = Running \<and> expires (items m p) \<le>s now \<and> (Key k, p) \<in> set es \<longrightarrow>
            (\<exists>m'. sweeper_tick now es m = Done m' \<and>
                  Get zero (Key k) m' = Done ((zero, False), m') \<and>
                  GetOrZero zero (Key k) m' = Done (zero, m'))) \<and>
         (\<forall>k'. Get zero (NaNKey k') m = Done ((zero, False), m) \<and>
               GetOrZero zero (NaNKey k') m = Done (zero, m))"
proof -
  have "\<exists>m'. sweeper_tick now es m = Done m' \<and>
              Get zero (Key k) m' = Done ((zero, False), m') \<and>
              GetOrZero zero (Key k) m' = Done (zero, m')"
    if "sweeper m = Running" "expires (items m p) \<le>s now" "(Key k, p) \<in> set es" for now es
  proof -
    from tick_removes_expired [OF assms(1) that(1) assms(2) that(2,3)]
    obtain m' where "sweeper_tick now es m = Done m'" "lock m' = Unlocked"
      "fmlookup (found m') k = None" by blast
    then show ?thesis by (simp add: Get_Done GetOrZero_Done)
  qed
  then show ?thesis
    using assms by (simp add: Get_Done GetOrZero_Done Get_NaN_Done GetOrZero_NaN_Done)
qed

theorem Get_ignores_expiry_witness:
  "lock tm_one = Unlocked \<and> fmlookup (found tm_one) ''myString'' = Some 0 \<and>
   sweeper tm_one = Running \<and> expires (items tm_one 0) \<le>s 5000000000 \<and>
   Get [] (Key ''myString'') tm_one = Done ((''a b c'', True), tm_one) \<and>
   GetOrZero [] (Key ''myString'') tm_one = Done (''a b c'', tm_one) \<and>
   (\<exists>m'. sweeper_tick 5000000000 [(Key ''myString'', 0)] tm_one = Done m' \<and>
         Get [] (Key ''myString'') m' = Done (([], False), m'))"
proof -
  have h: "lock tm_one = Unlocked" "fmlookup (found tm_one) ''myString'' = Some 0"
    by (simp_all add: tm_one_def tm_new_def)
  have e: "sweeper tm_one = Running" "expires (items tm_one 0) \<le>s 5000000000"
    "item_value (items tm_one 0) = ''a b c''"
    by (simp_all add: tm_one_def tm_new_def word_sle_eq)
  note c = Get_ignores_expiry [OF h, of "[]"]
  from c have g: "Get [] (Key ''myString'') tm_one = Done ((''a b c'', True), tm_one)"
    "GetOrZero [] (Key ''myString'') tm_one = Done (''a b c'', tm_one)"
    using e(3) by simp_all
  have "(Key ''myString'', 0) \<in> set [(Key ''myString'', 0 :: nat)]" by simp
  with e c [THEN conjunct2, THEN conjunct2, THEN conjunct1, rule_format,
      of 5000000000 "[(Key ''myString'', 0)]"]
  have "\<exists>m'. sweeper_tick 5000000000 [(Key ''myString'', 0)] tm_one = Done m' \<and>
            Get [] (Key ''myString'') m' = Done (([], False), m')"
    by blast
  with h e g show ?thesis by simp
qed

theorem Get_misses_NaN_counterexample:
  "is_entry (NaNKey 0) 0 (table tm_nan) \<and> Len tm_nan = Done (1, tm_nan) \<and>
   item_value (items tm_nan 0) = ''v'' \<and>
   Get [] (NaNKey 0) tm_nan = Done (([], False), tm_nan) \<and>
   GetOrZero [] (NaNKey 0) tm_nan = Done ([], tm_nan)"
  by (simp add: tm_nan_def tm_f32_def Len_Done Get_NaN_Done GetOrZero_NaN_Done)

subsection \<open>Len\<close>

text \<open>
  Claim C5. With the lock free, \<^verbatim>\<open>Len\<close> returns the number of entries of the table and
  changes nothing. An entry whose expiry time has passed is one of them: it is counted,
  beside the other entries, until a tick of the sweeper deletes it, after which \<^verbatim>\<open>Len\<close>
  counts at most the other entries. An entry under a key not equal to itself is counted
  too, and still after any tick.
\<close>

theorem Len_counts_physical_entries:
  assumes "lock m = Unlocked"
  shows "Len m = Done (fcard (fmdom (found m)) + size (lost m), m) \<and>
         (\<forall>k p now. fmlookup (found m) k = Some p \<and> expires (items m p) \<le>s now \<longrightarrow>
            fcard (fmdom (found m)) = Suc (fcard (fmdom (found m) |-| {|k|})) \<and>
            (\<forall>es. sweeper m = Running \<and> (Key k, p) \<in> set es \<longrightarrow>
               (\<exists>m' n. sweeper_tick now es m = Done m' \<and> Len m' = Done (n, m') \<and>
                       n \<le> fcard (fmdom (found m) |-| {|k|}) + size (lost m)))) \<and>
         (\<forall>k p. (k, p) \<in># lost m \<longrightarrow>
            size (lost m) = Suc (size (lost m - {#(k, p)#})) \<and>
            (\<forall>now es. sweeper m = Running \<longrightarrow>
               (\<exists>m' n. sweeper_tick now es m = Done m' \<and> Len m' = Done (n, m') \<and>
                       (k, p) \<in># lost m' \<and> size (lost m) \<le> n)))"
proof -
  have counted: "fcard (fmdom (found m)) = Suc (fcard (fmdom (found m) |-| {|k|}))"
    if "fmlookup (found m) k = Some p" for k p
  proof -
    from that have "k |\<in>| fmdom (found m)" by (rule fmdomI)
    then show ?thesis by (rule fcard_Suc_fminus1 [symmetric])
  qed
  have swept: "\<exists>m' n. sweeper_tick now es m = Done m' \<and> Len m' = Done (n, m') \<and>
                      n \<le> fcard (fmdom (found m) |-| {|k|}) + size (lost m)"
    if "fmlookup (found m) k = Some p" "expires (items m p) \<le>s now"
      "sweeper m = Running" "(Key k, p) \<in> set es" for k p now es
  proof -
    from tick_removes_expired [OF assms that(3,1,2,4)]
    obtain m' where m': "sweeper_tick now es m = Done m'" "lock m' = Unlocked"
      "lost m' = lost m" "fmdom (found m') |\<subseteq>| fmdom (found m) |-| {|k|}" by blast
    from m'(4) have "fcard (fmdom (found m')) \<le> fcard (fmdom (found m) |-| {|k|})"
      by (rule fcard_mono)
    with m'(1-3) show ?thesis by (simp add: Len_Done)
  qed
  have lost_counted: "size (lost m) = Suc (size (lost m - {#(k, p)#}))"
    if "(k, p) \<in># lost m" for k p
    using that by (rule size_Suc_Diff1 [symmetric])
  have lost_kept: "\<exists>m' n. sweeper_tick now es m = Done m' \<and> Len m' = Done (n, m') \<and>
                         (k, p) \<in># lost m' \<and> size (lost m) \<le> n"
    if "(k, p) \<in># lost m" "sweeper m = Running" for k p now es
  proof -
    from tick_keeps_lost [OF assms that(2), of now es]
    obtain m' where "sweeper_tick now es m = Done m'" "lock m' = Unlocked" "lost m' = lost m"
      by blast
    with that(1) show ?thesis by (simp add: Len_Done)
  qed
  show ?thesis
    using assms counted swept lost_counted lost_kept by (simp add: Len_Done)
qed

theorem Len_counts_physical_entries_witness:
  "lock tm_one = Unlocked \<and> fmlookup (found tm_one) ''myString'' = Some 0 \<and>
   expires (items tm_one 0) \<le>s 2000001000 \<and> sweeper tm_one = Running \<and>
   Len tm_one = Done (1, tm_one) \<and>
   (\<exists>m'. sweeper_tick 2000001000 [(Key ''myString'', 0)] tm_one = Done m' \<and>
         Len m' = Done (0, m'))"
proof -
  have h: "lock tm_one = Unlocked"
    by (simp add: tm_one_def tm_new_def)
  have e: "fmlookup (found tm_one) ''myString'' = Some 0"
    "expires (items tm_one 0) \<le>s 2000001000" "sweeper tm_one = Running"
    by (simp_all add: tm_one_def tm_new_def word_sle_eq)
  have n: "fcard (fmdom (found tm_one)) + size (lost tm_one) = 1"
    "fcard (fmdom (found tm_one) |-| {|''myString''|}) + size (lost tm_one) = 0"
    by (simp_all add: tm_one_def tm_new_def fcard_finsert_if)
  note c = Len_counts_physical_entries [OF h]
  from c n(1) have l: "Len tm_one = Done (1, tm_one)" by simp
  have "(Key ''myString'', 0) \<in> set [(Key ''myString'', 0 :: nat)]" by simp
  with e c [THEN conjunct2, THEN conjunct1, rule_format, of "''myString''" 0 2000001000,
      THEN conjunct2, rule_format, of "[(Key ''myString'', 0)]"]
  obtain m' n where "sweeper_tick 2000001000 [(Key ''myString'', 0)] tm_one = Done m'"
    "Len m' = Done (n, m')"
    "n \<le> fcard (fmdom (found tm_one) |-| {|''myString''|}) + size (lost tm_one)"
    by blast
  moreover from this(3) have "n = 0" unfolding n(2) by simp
  ultimately have "\<exists>m'. sweeper_tick 2000001000 [(Key ''myString'', 0)] tm_one = Done m' \<and>
                     Len m' = Done (0, m')"
    by auto
  with h e l show ?thesis by simp
qed

subsection \<open>Put\<close>




subsection \<open>Delete in version 0.1.0\<close>

text \<open>
  Claim C9. In version 0.1.0, \<^verbatim>\<open>Delete\<close> of a key that the lookup does not find, called
  with the lock free, takes the lock, releases it before \<^verbatim>\<open>return false\<close>, and releases it
  again in the deferred call: the second \<^verbatim>\<open>Unlock\<close> finds the mutex unlocked, which is a
  fatal run-time error, so the call does not return. This holds for every absent key; for
  a key that cannot be hashed the call does not return either.
\<close>

theorem Delete_v010_absent_faults:
  assumes "lock m = Unlocked" and "map_index (entries m) key m = Done None"
  shows "Delete_v010 key m = Fault UnlockOfUnlockedRWMutex \<and>
         \<not> is_Done (Delete_v010 key m) \<and>
         lock_Lock m = Done (m\<lparr>lock := WriteLocked\<rparr>) \<and>
         lock_Unlock (m\<lparr>lock := WriteLocked\<rparr>) = Done m \<and>
         lock_Unlock m = Fault UnlockOfUnlockedRWMutex \<and>
         \<not> is_Done (Delete_v010 Unhashable m)"
  using assms
  by (simp add: Delete_v010_def lock_Lock_def lock_Unlock_def map_index_def)

theorem Delete_v010_absent_faults_witness:
  "lock tm_v010 = Unlocked \<and>
   map_index (entries tm_v010) (Key ''anotherString'') tm_v010 = Done None \<and>
   Delete_v010 (Key ''anotherString'') tm_v010 = Fault UnlockOfUnlockedRWMutex \<and>
   Delete_v010 (Key ''myString'') tm_v010 =
     Done (True, tm_v010\<lparr>maps := (maps tm_v010)(0 := empty_map)\<rparr>)"
proof -
  have h: "lock tm_v010 = Unlocked"
    "map_index (entries tm_v010) (Key ''anotherString'') tm_v010 = Done None"
    by (simp_all add: tm_v010_def map_index_def)
  have p: "Delete_v010 (Key ''myString'') tm_v010 =
             Done (True, tm_v010\<lparr>maps := (maps tm_v010)(0 := empty_map)\<rparr>)"
    by (simp add: Delete_v010_def lock_Lock_def lock_Unlock_def map_index_def map_delete_def
        tm_v010_def fmdrop_fmupd_same empty_map_def)
  from Delete_v010_absent_faults [OF h] show ?thesis
    using h p by simp
qed

subsection \<open>Histories\<close>

lemma sweeper_tick_cases:
  assumes "lock m = Unlocked" and "sweeper_tick now es m = Done m'"
  shows "sweeper m = Running \<and>
         (\<exists>R. m' = m\<lparr>maps := (maps m)(entries m := (table m)\<lparr>reachable := R\<rparr>)\<rparr> \<and>
              (\<forall>k p. fmlookup R k = Some p \<longrightarrow> fmlookup (found m) k = Some p))"
proof -
  from assms(2) have r: "sweeper m = Running"
    by (cases "sweeper m") (simp_all add: sweeper_tick_def)
  from sweeper_tick_Done [OF assms(1) r, of now es] obtain R
    where tick: "sweeper_tick now es m =
                   Done (m\<lparr>maps := (maps m)(entries m := (table m)\<lparr>reachable := R\<rparr>)\<rparr>)"
      and R: "\<And>k. fmlookup R k =
         (case fmlookup (found m) k of
            None \<Rightarrow> None
          | Some p \<Rightarrow>
              if (Key k, p) \<in> set es \<and> expires (items m p) \<le>s now then None else Some p)"
    by blast
  have "fmlookup (found m) k = Some p" if "fmlookup R k = Some p" for k p
    using that by (auto simp: R split: option.splits if_splits)
  with tick assms(2) r show ?thesis by auto
qed

lemma Close_cases:
  assumes "lock m = Unlocked" and "Close m = Done m'"
  shows "sweeper m = Running \<and>
         m' = m\<lparr>sweeper := Stopped, ticker := TickerStopped,
                maps := (maps m)(entries m := empty_map)\<rparr>"
proof -
  from assms(2) have r: "sweeper m = Running"
    by (cases "sweeper m") (simp_all add: Close_def sweeper_stop_def)
  with assms show ?thesis
    by (simp add: Close_def sweeper_stop_def Clear_Done)
qed

lemma sweeper_start_cases:
  assumes "sweeper_start m = Done m'"
  shows "sweeper m = Spawned \<and> 0 <s pruneInterval m \<and>
         m' = m\<lparr>sweeper := Running, ticker := Ticking (pruneInterval m)\<rparr>"
  using assms
  by (cases "sweeper m") (auto simp: sweeper_start_def not_sle_iff split: if_splits)

lemma andThen_DoneD:
  "andThen x f = Done y \<Longrightarrow> \<exists>a. x = Done a \<and> f a = Done y"
  by (cases x) simp_all

lemma Get_state:
  assumes "lock m = Unlocked" and "Get zero key m = Done (r, m')"
  shows "m' = m"
  using assms by (cases key) (simp_all add: Get_Done Get_NaN_Done Get_Unhashable)

lemma GetOrZero_state:
  assumes "lock m = Unlocked" and "GetOrZero zero key m = Done (r, m')"
  shows "m' = m"
  using assms
  by (cases key) (simp_all add: GetOrZero_Done GetOrZero_NaN_Done GetOrZero_Unhashable)

lemma Delete_cases:
  assumes "lock m = Unlocked" and "Delete key m = Done (r, m')"
  shows "m' = m \<or>
         (\<exists>k. m' = m\<lparr>maps := (maps m)(entries m := (table m)\<lparr>reachable := fmdrop k (found m)\<rparr>)\<rparr>)"
  using assms
  by (cases key)
    (auto simp: Delete_Done Delete_NaN_Done Delete_Unhashable split: option.splits)

lemma exec_not_Put:
  assumes "lock m = Unlocked" and "entries m < next_map m"
    and "\<not> is_Put c" and "exec zero c m = Done m'"
  shows "lock m' = Unlocked \<and> ttl m' = ttl m \<and> entries m' = entries m \<and>
         items m' = items m \<and> next_item m' = next_item m \<and> next_map m \<le> next_map m' \<and>
         (\<forall>k p. is_entry k p (table m') \<longrightarrow> is_entry k p (table m)) \<and>
         (sweeper m = Stopped \<longrightarrow> sweeper m' = Stopped \<and> ticker m' = ticker m)"
proof (cases c)
  case (CallPut key val now)
  with assms(3) show ?thesis by simp
next
  case (CallGet key)
  with assms(4) obtain r where "Get zero key m = Done (r, m')"
    by (auto dest!: andThen_DoneD)
  from Get_state [OF assms(1) this] show ?thesis using assms(1) by simp
next
  case (CallGetOrZero key)
  with assms(4) obtain r where "GetOrZero zero key m = Done (r, m')"
    by (auto dest!: andThen_DoneD)
  from GetOrZero_state [OF assms(1) this] show ?thesis using assms(1) by simp
next
  case (CallDelete key)
  with assms(4) obtain r where "Delete key m = Done (r, m')"
    by (auto dest!: andThen_DoneD)
  from Delete_cases [OF assms(1) this] have
    "m' = m \<or>
     (\<exists>k. m' = m\<lparr>maps := (maps m)(entries m := (table m)\<lparr>reachable := fmdrop k (found m)\<rparr>)\<rparr>)" .
  then show ?thesis
  proof
    assume "m' = m" then show ?thesis using assms(1) by simp
  next
    assume "\<exists>k. m' = m\<lparr>maps := (maps m)(entries m := (table m)\<lparr>reachable := fmdrop k (found m)\<rparr>)\<rparr>"
    then obtain k0
      where m': "m' = m\<lparr>maps := (maps m)(entries m := (table m)\<lparr>reachable := fmdrop k0 (found m)\<rparr>)\<rparr>"
      by blast
    have t: "table m' = (table m)\<lparr>reachable := fmdrop k0 (found m)\<rparr>"
      by (simp add: m')
    have "is_entry k p (table m)" if "is_entry k p (table m')" for k p
      using that unfolding t by (cases k) (simp_all split: if_splits)
    then show ?thesis using assms(1) by (simp add: m')
  qed
next
  case CallClear
  with assms(1,4) have m': "m' = m\<lparr>maps := (maps m)(entries m := empty_map)\<rparr>"
    by (simp add: Clear_Done)
  have "is_entry k p (table m)" if "is_entry k p (table m')" for k p
    using that by (cases k) (auto simp: m' empty_map_def)
  then show ?thesis using assms(1) by (simp add: m')
next
  case CallLen
  with assms show ?thesis by (auto simp: Len_Done)
next
  case CallCopy
  from assms(2) have ne: "entries m \<noteq> next_map m" by simp
  from CallCopy assms(4) have "m' = m\<lparr>maps := (maps m)(next_map m := table m),
                                         next_map := Suc (next_map m)\<rparr>"
    by (simp add: Copy_Done [OF assms(1) ne])
  then show ?thesis using assms(1) ne by simp
next
  case CallClose
  with assms(4) have "Close m = Done m'" by simp
  from Close_cases [OF assms(1) this]
  have r: "sweeper m = Running"
    and m': "m' = m\<lparr>sweeper := Stopped, ticker := TickerStopped,
                    maps := (maps m)(entries m := empty_map)\<rparr>"
    by simp_all
  have "is_entry k p (table m)" if "is_entry k p (table m')" for k p
    using that by (cases k) (auto simp: m' empty_map_def)
  then show ?thesis using assms(1) r by (simp add: m')
next
  case SweeperStart
  with assms sweeper_start_cases [of m m'] show ?thesis by auto
next
  case (SweeperTick now es)
  with assms(4) have "sweeper_tick now es m = Done m'" by simp
  from sweeper_tick_cases [OF assms(1) this] obtain R
    where r: "sweeper m = Running"
      and m': "m' = m\<lparr>maps := (maps m)(entries m := (table m)\<lparr>reachable := R\<rparr>)\<rparr>"
      and R: "\<And>k p. fmlookup R k = Some p \<Longrightarrow> fmlookup (found m) k = Some p"
    by blast
  have "is_entry k p (table m)" if "is_entry k p (table m')" for k p
    using that R by (cases k) (auto simp: m')
  then show ?thesis using assms(1) r by (simp add: m')
qed

lemma exec_Put:
  assumes "lock m = Unlocked" and "exec zero (CallPut key val now) m = Done m'"
  shows "\<exists>obj. mapassign key (next_item m) (table m) = Done obj \<and>
           m' = m\<lparr>maps := (maps m)(entries m := obj),
                  items := (items m)(next_item m := \<lparr>item_value = val, expires = now + ttl m\<rparr>),
                  next_item := Suc (next_item m)\<rparr>"
  using assms
  by (cases key) (auto simp: Put_Done Put_NaN_Done Put_Unhashable)

lemma mapassign_entries:
  assumes "mapassign key p obj = Done obj'" and "is_entry k' p' obj'"
  shows "k' = key \<and> p' = p \<or> is_entry k' p' obj"
  using assms by (cases key; cases k') (auto split: if_splits)

lemma mapassign_found:
  assumes "mapassign key p obj = Done obj'"
  shows "fmlookup (reachable obj') k =
           (if key = Key k then Some p else fmlookup (reachable obj) k)"
  using assms by (cases key) auto

lemma put_times_Put:
  "put_times (CallPut key val now # cs) w =
     put_times cs (case key of Key k \<Rightarrow> w(k \<mapsto> now) | _ \<Rightarrow> w)"
  by (cases key) simp_all

lemma put_log_not_Put: "\<not> is_Put c \<Longrightarrow> put_log (c # cs) n lg = put_log cs n lg"
  by (cases c) simp_all

lemma put_times_not_Put: "\<not> is_Put c \<Longrightarrow> put_times (c # cs) w = put_times cs w"
  by (cases c) simp_all

lemma run_invariant:
  assumes "run zero cs m = Done m'" and "lock m = Unlocked" and "entries m < next_map m"
    and "\<forall>k p. is_entry k p (table m) \<longrightarrow>
           p < next_item m \<and>
           (\<exists>val tw. lg p = Some (k, val, tw) \<and>
                     items m p = \<lparr>item_value = val, expires = tw + ttl m\<rparr>)"
    and "\<forall>k p. fmlookup (found m) k = Some p \<longrightarrow>
           (\<exists>tw. w k = Some tw \<and> expires (items m p) = tw + ttl m)"
  shows "lock m' = Unlocked \<and> entries m' < next_map m' \<and> ttl m' = ttl m \<and>
         (\<forall>k p. is_entry k p (table m') \<longrightarrow>
            p < next_item m' \<and>
            (\<exists>val tw. put_log cs (next_item m) lg p = Some (k, val, tw) \<and>
                      items m' p = \<lparr>item_value = val, expires = tw + ttl m\<rparr>)) \<and>
         (\<forall>k p. fmlookup (found m') k = Some p \<longrightarrow>
            (\<exists>tw. put_times cs w k = Some tw \<and> expires (items m' p) = tw + ttl m))"
  using assms
proof (induction cs arbitrary: m lg w)
  case Nil
  then show ?case by simp
next
  case (Cons c cs)
  from Cons.prems(1) obtain m1 where m1: "exec zero c m = Done m1" "run zero cs m1 = Done m'"
    by (auto dest!: andThen_DoneD)
  show ?case
  proof (cases "is_Put c")
    case False
    from exec_not_Put [OF Cons.prems(2,3) False m1(1)]
    have f: "lock m1 = Unlocked" "ttl m1 = ttl m" "entries m1 = entries m"
      "items m1 = items m" "next_item m1 = next_item m" "next_map m \<le> next_map m1"
      "\<forall>k p. is_entry k p (table m1) \<longrightarrow> is_entry k p (table m)"
      by simp_all
    have a: "entries m1 < next_map m1"
      using f(3,6) Cons.prems(3) by simp
    have b: "\<forall>k p. is_entry k p (table m1) \<longrightarrow>
               p < next_item m1 \<and>
               (\<exists>val tw. lg p = Some (k, val, tw) \<and>
                         items m1 p = \<lparr>item_value = val, expires = tw + ttl m1\<rparr>)"
      unfolding f(2,4,5) using f(7) Cons.prems(4) by blast
    have c: "\<forall>k p. fmlookup (found m1) k = Some p \<longrightarrow>
               (\<exists>tw. w k = Some tw \<and> expires (items m1 p) = tw + ttl m1)"
    proof (intro allI impI)
      fix k p assume "fmlookup (found m1) k = Some p"
      then have "is_entry (Key k) p (table m1)" by simp
      with f(7) have "is_entry (Key k) p (table m)" by blast
      then have "fmlookup (found m) k = Some p" by simp
      with Cons.prems(5) show "\<exists>tw. w k = Some tw \<and> expires (items m1 p) = tw + ttl m1"
        unfolding f(2,4) by blast
    qed
    from Cons.IH [OF m1(2) f(1) a b c] show ?thesis
      unfolding put_log_not_Put [OF False] put_times_not_Put [OF False] f(2,5) .
  next
    case True
    then obtain key val now where c: "c = CallPut key val now"
      by (cases c) simp_all
    let ?p = "next_item m"
    let ?lg = "lg(?p \<mapsto> (key, val, now))"
    let ?w = "case key of Key k \<Rightarrow> w(k \<mapsto> now) | _ \<Rightarrow> w"
    from exec_Put [OF Cons.prems(2) m1(1) [unfolded c]] obtain obj
      where obj: "mapassign key ?p (table m) = Done obj"
        and e: "m1 = m\<lparr>maps := (maps m)(entries m := obj),
                    items := (items m)(?p := \<lparr>item_value = val, expires = now + ttl m\<rparr>),
                    next_item := Suc ?p\<rparr>"
      by blast
    have f: "lock m1 = Unlocked" "ttl m1 = ttl m" "entries m1 < next_map m1"
      "next_item m1 = Suc ?p" "table m1 = obj"
      using Cons.prems(2,3) by (simp_all add: e)
    have b: "\<forall>k p. is_entry k p (table m1) \<longrightarrow>
               p < next_item m1 \<and>
               (\<exists>val' tw. ?lg p = Some (k, val', tw) \<and>
                          items m1 p = \<lparr>item_value = val', expires = tw + ttl m1\<rparr>)"
    proof (intro allI impI)
      fix k p assume "is_entry k p (table m1)"
      then have "is_entry k p obj" by (simp add: f(5))
      from mapassign_entries [OF obj this]
      show "p < next_item m1 \<and>
            (\<exists>val' tw. ?lg p = Some (k, val', tw) \<and>
                       items m1 p = \<lparr>item_value = val', expires = tw + ttl m1\<rparr>)"
      proof
        assume "k = key \<and> p = ?p"
        then show ?thesis by (simp add: e)
      next
        assume "is_entry k p (table m)"
        with Cons.prems(4) have "p < ?p"
          and "\<exists>val' tw. lg p = Some (k, val', tw) \<and>
                 items m p = \<lparr>item_value = val', expires = tw + ttl m\<rparr>"
          by blast+
        then show ?thesis by (simp add: e)
      qed
    qed
    have d: "\<forall>k p. fmlookup (found m1) k = Some p \<longrightarrow>
               (\<exists>tw. ?w k = Some tw \<and> expires (items m1 p) = tw + ttl m1)"
    proof (intro allI impI)
      fix k p assume l: "fmlookup (found m1) k = Some p"
      show "\<exists>tw. ?w k = Some tw \<and> expires (items m1 p) = tw + ttl m1"
      proof (cases "key = Key k")
        case True
        with l mapassign_found [OF obj, of k] have "p = ?p" by (simp add: f(5))
        then show ?thesis using True by (simp add: e)
      next
        case False
        with l mapassign_found [OF obj, of k] have old: "fmlookup (found m) k = Some p"
          by (simp add: f(5))
        then have "is_entry (Key k) p (table m)" by simp
        with Cons.prems(4) have "p < ?p" by blast
        moreover from old Cons.prems(5)
        have "\<exists>tw. w k = Some tw \<and> expires (items m p) = tw + ttl m" by blast
        moreover have "?w k = w k"
          using False by (cases key) simp_all
        ultimately show ?thesis by (simp add: e)
      qed
    qed
    have lg: "put_log (c # cs) (next_item m) lg = put_log cs (next_item m1) ?lg"
      by (simp add: c f(4))
    have w: "put_times (c # cs) w = put_times cs ?w"
      by (simp add: c put_times_Put)
    from Cons.IH [OF m1(2) f(1,3) b d] show ?thesis
      unfolding lg w f(2) .
  qed
qed

text \<open>
  Claim C3, as amended. In every state reached from \<^verbatim>\<open>New\<close> by a history of method calls
  and goroutine steps, \<open>ttl\<close> is the configured one, and each entry of the table points to
  the item that one \<^verbatim>\<open>Put\<close> of the history wrote for the entry's key: the item holds the
  value of that call and \<open>expires\<close> is the time of that call plus \<open>ttl\<close> as the 64-bit sum,
  which is the sum of the two whenever that fits in 64 bits. For a key equal to itself that
  call is the latest \<^verbatim>\<open>Put\<close> of the key. No further call changes that: a call other than
  \<^verbatim>\<open>Put\<close> leaves every item as it is, \<^verbatim>\<open>Put\<close> writes a new item and leaves the items of the
  table as they are, and \<^verbatim>\<open>Get\<close> and \<^verbatim>\<open>GetOrZero\<close> leave the whole state unchanged.
\<close>

theorem expires_written_only_by_Put:
  assumes "andThen (New capacity t interval h) (run zero cs) = Done m"
  shows "ttl m = t \<and>
         (\<forall>k p. is_entry k p (table m) \<longrightarrow>
            (\<exists>val tw. put_log cs (next_item h) Map.empty p = Some (k, val, tw) \<and>
                      items m p = \<lparr>item_value = val, expires = tw + t\<rparr> \<and>
                      (fits_int64 tw t \<longrightarrow> sint (expires (items m p)) = sint tw + sint t))) \<and>
         (\<forall>k p. fmlookup (found m) k = Some p \<longrightarrow>
            (\<exists>tw. put_times cs Map.empty k = Some tw \<and> expires (items m p) = tw + t)) \<and>
         (\<forall>c m'. exec zero c m = Done m' \<longrightarrow>
            ttl m' = t \<and>
            (\<not> is_Put c \<longrightarrow> items m' = items m) \<and>
            (\<forall>k p. is_entry k p (table m) \<longrightarrow> items m' p = items m p)) \<and>
         (\<forall>k r m'. Get zero k m = Done (r, m') \<longrightarrow> m' = m) \<and>
         (\<forall>k r m'. GetOrZero zero k m = Done (r, m') \<longrightarrow> m' = m)"
proof -
  let ?m0 = "\<lparr>maps = (maps h)(next_map h := empty_map), items = items h,
              next_map = Suc (next_map h), next_item = next_item h,
              entries = next_map h, lock = Unlocked, ttl = t, pruneInterval = interval,
              sweeper = Spawned, ticker = NoTicker\<rparr> :: ('a, 'b) state"
  from assms have r: "run zero cs ?m0 = Done m"
    by (simp add: New_Done)
  have i: "\<forall>k p. is_entry k p (table ?m0) \<longrightarrow>
             p < next_item ?m0 \<and>
             (\<exists>val tw. Map.empty p = Some (k, val, tw) \<and>
                       items ?m0 p = \<lparr>item_value = val, expires = tw + ttl ?m0\<rparr>)"
  proof (intro allI impI)
    fix k p assume "is_entry k p (table ?m0)"
    then show "p < next_item ?m0 \<and>
             (\<exists>val tw. Map.empty p = Some (k, val, tw) \<and>
                       items ?m0 p = \<lparr>item_value = val, expires = tw + ttl ?m0\<rparr>)"
      by (cases k) (simp_all add: empty_map_def)
  qed
  have j: "\<forall>k p. fmlookup (found ?m0) k = Some p \<longrightarrow>
             (\<exists>tw. Map.empty k = Some tw \<and> expires (items ?m0 p) = tw + ttl ?m0)"
    by (simp add: empty_map_def)
  from run_invariant [OF r _ _ i j]
  have inv: "lock m = Unlocked" "entries m < next_map m" "ttl m = t"
    "\<forall>k p. is_entry k p (table m) \<longrightarrow>
       p < next_item m \<and>
       (\<exists>val tw. put_log cs (next_item h) Map.empty p = Some (k, val, tw) \<and>
                 items m p = \<lparr>item_value = val, expires = tw + t\<rparr>)"
    "\<forall>k p. fmlookup (found m) k = Some p \<longrightarrow>
       (\<exists>tw. put_times cs Map.empty k = Some tw \<and> expires (items m p) = tw + t)"
    by simp_all
  have written: "\<exists>val tw. put_log cs (next_item h) Map.empty p = Some (k, val, tw) \<and>
                      items m p = \<lparr>item_value = val, expires = tw + t\<rparr> \<and>
                      (fits_int64 tw t \<longrightarrow> sint (expires (items m p)) = sint tw + sint t)"
    if "is_entry k p (table m)" for k p
  proof -
    from inv(4) that obtain val tw
      where "put_log cs (next_item h) Map.empty p = Some (k, val, tw)"
        "items m p = \<lparr>item_value = val, expires = tw + t\<rparr>"
      by blast
    then show ?thesis by (auto simp: sint_plus_fits)
  qed
  have step: "ttl m' = t \<and> (\<not> is_Put c \<longrightarrow> items m' = items m) \<and>
              (\<forall>k p. is_entry k p (table m) \<longrightarrow> items m' p = items m p)"
    if e: "exec zero c m = Done m'" for c m'
  proof (cases "is_Put c")
    case False
    from exec_not_Put [OF inv(1,2) False e] inv(3) show ?thesis by simp
  next
    case True
    then obtain key val now where c: "c = CallPut key val now"
      by (cases c) simp_all
    have "p \<noteq> next_item m" if "is_entry k p (table m)" for k p
      using inv(4) that by fastforce
    with exec_Put [OF inv(1) e [unfolded c]] inv(3) True show ?thesis
      by auto
  qed
  have get: "m' = m" if "Get zero k m = Done (r, m')" for k r m'
    using that inv(1) by (rule Get_state [rotated])
  have getz: "m' = m" if "GetOrZero zero k m = Done (r, m')" for k r m'
    using that inv(1) by (rule GetOrZero_state [rotated])
  show ?thesis
    using inv(3,5) written step get getz by blast
qed

theorem expires_written_only_by_Put_witness:
  "andThen (New 3 2000000000 3000000000 mem0) (run [] calls_one) = Done tm_one \<and>
   ttl tm_one = 2000000000 \<and> is_entry (Key ''myString'') 0 (table tm_one) \<and>
   put_log calls_one (next_item mem0) Map.empty 0 = Some (Key ''myString'', ''a b c'', 1000) \<and>
   put_times calls_one Map.empty ''myString'' = Some 1000 \<and>
   fits_int64 1000 2000000000 \<and>
   items tm_one 0 = \<lparr>item_value = ''a b c'', expires = 1000 + 2000000000\<rparr> \<and>
   sint (expires (items tm_one 0)) = 2000001000 \<and>
   exec [] (CallGet (Key ''myString'')) tm_one = Done tm_one \<and>
   (\<exists>m'. exec [] (CallPut (Key ''other'') ''v'' 2000) tm_one = Done m' \<and>
         items m' 0 = items tm_one 0)"
proof -
  have h: "andThen (New 3 2000000000 3000000000 mem0) (run [] calls_one) = Done tm_one"
    by (simp add: New_Done mem0_def calls_one_def sweeper_start_def word_sle_eq Put_Done
        Get_Done tm_one_def tm_new_def empty_map_def)
  have l: "is_entry (Key ''myString'') 0 (table tm_one)"
    and lg: "put_log calls_one (next_item mem0) Map.empty 0 =
               Some (Key ''myString'', ''a b c'', 1000)"
    and w: "put_times calls_one Map.empty ''myString'' = Some 1000"
    and g: "exec [] (CallGet (Key ''myString'')) tm_one = Done tm_one"
    and f: "fits_int64 1000 2000000000"
    by (simp_all add: tm_one_def tm_new_def calls_one_def Get_Done mem0_def fits_int64_def)
  note c = expires_written_only_by_Put [OF h]
  from c have t: "ttl tm_one = 2000000000" by blast
  from c l obtain val tw
    where v: "put_log calls_one (next_item mem0) Map.empty 0 = Some (Key ''myString'', val, tw)"
      "items tm_one 0 = \<lparr>item_value = val, expires = tw + 2000000000\<rparr>"
      "fits_int64 tw 2000000000 \<longrightarrow>
         sint (expires (items tm_one 0)) = sint tw + sint (2000000000 :: int64)"
    by blast
  from v(1) lg have "val = ''a b c''" "tw = 1000" by simp_all
  with v(2,3) f have e: "items tm_one 0 = \<lparr>item_value = ''a b c'', expires = 1000 + 2000000000\<rparr>"
    "sint (expires (items tm_one 0)) = 2000001000"
    by simp_all
  obtain m' where p: "exec [] (CallPut (Key ''other'') ''v'' 2000) tm_one = Done m'"
    by (simp add: Put_Done tm_one_def tm_new_def)
  with c l have "items m' 0 = items tm_one 0"
    by blast
  with h t l lg w f e g p show ?thesis by blast
qed

theorem expires_wraps_counterexample:
  "andThen (New 3 9223372036854775807 3000000000 mem0) (run [] calls_forever) =
     Done tm_forever_one \<and>
   is_entry (Key ''k'') 0 (table tm_forever_one) \<and>
   put_log calls_forever (next_item mem0) Map.empty 0 = Some (Key ''k'', ''v'', 1000) \<and>
   ttl tm_forever_one = 9223372036854775807 \<and>
   sint (1000 :: int64) + sint (ttl tm_forever_one) = 9223372036854776807 \<and>
   sint (expires (items tm_forever_one 0)) = - 9223372036854774809 \<and>
   expires (items tm_forever_one 0) <s 1000"
  by (simp add: New_Done mem0_def calls_forever_def sweeper_start_def word_sle_eq word_sless_alt
      Put_Done tm_forever_one_def tm_forever_def tm_new_def empty_map_def)

subsection \<open>Close\<close>

lemma run_Stopped:
  assumes "run zero cs m = Done m'" and "lock m = Unlocked" and "entries m < next_map m"
    and "sweeper m = Stopped"
  shows "lock m' = Unlocked \<and> sweeper m' = Stopped \<and> ticker m' = ticker m"
  using assms
proof (induction cs arbitrary: m)
  case Nil
  then show ?case by simp
next
  case (Cons c cs)
  from Cons.prems(1) obtain m1 where m1: "exec zero c m = Done m1" "run zero cs m1 = Done m'"
    by (auto dest!: andThen_DoneD)
  have f: "lock m1 = Unlocked \<and> entries m1 < next_map m1 \<and> sweeper m1 = Stopped \<and>
           ticker m1 = ticker m"
  proof (cases "is_Put c")
    case False
    from exec_not_Put [OF Cons.prems(2,3) False m1(1)] Cons.prems(3,4) show ?thesis by simp
  next
    case True
    then obtain key val now where c: "c = CallPut key val now"
      by (cases c) simp_all
    from exec_Put [OF Cons.prems(2) m1(1) [unfolded c]] Cons.prems(2-4) show ?thesis by auto
  qed
  with Cons.IH [OF m1(2)] show ?case by simp
qed

text \<open>
  Claim C8. With the lock free and the sweeper in its loop, \<^verbatim>\<open>Close\<close> returns normally: first
  the stop signal is received, which ends the goroutine and stops its ticker while the table
  is still as it was, then the table is cleared. Afterwards the table is empty, the sweeper
  is \<open>Stopped\<close> and its ticker is stopped; no tick is taken in that state, and every later
  history of calls leaves the sweeper \<open>Stopped\<close>, so it never sweeps again.
\<close>

theorem Close_stops_then_clears:
  assumes "lock m = Unlocked" and "sweeper m = Running"
  shows "\<exists>m1 m'. sweeper_stop m = Done m1 \<and> Clear m1 = Done m' \<and> Close m = Done m' \<and>
           sweeper m1 = Stopped \<and> ticker m1 = TickerStopped \<and> table m1 = table m \<and>
           table m' = empty_map \<and> sweeper m' = Stopped \<and> ticker m' = TickerStopped \<and>
           (\<forall>now es. sweeper_tick now es m' = Blocks) \<and>
           (entries m < next_map m \<longrightarrow>
              (\<forall>cs m''. run zero cs m' = Done m'' \<longrightarrow>
                 sweeper m'' = Stopped \<and> ticker m'' = TickerStopped \<and>
                 (\<forall>now es. sweeper_tick now es m'' = Blocks)))"
proof -
  let ?m1 = "m\<lparr>sweeper := Stopped, ticker := TickerStopped\<rparr>"
  let ?m' = "?m1\<lparr>maps := (maps ?m1)(entries ?m1 := empty_map)\<rparr>"
  have stop: "sweeper_stop m = Done ?m1"
    using assms(2) by (simp add: sweeper_stop_def)
  have clear: "Clear ?m1 = Done ?m'"
    using assms(1) by (simp add: Clear_Done)
  have close: "Close m = Done ?m'"
    using stop clear by (simp add: Close_def)
  have never: "sweeper_tick now es m'' = Blocks" if "sweeper m'' = Stopped"
    for now es and m'' :: "('a, 'b) state"
    using that by (simp add: sweeper_tick_def)
  have later: "sweeper m'' = Stopped \<and> ticker m'' = TickerStopped \<and>
               (\<forall>now es. sweeper_tick now es m'' = Blocks)"
    if "entries m < next_map m" "run zero cs ?m' = Done m''" for cs m''
  proof -
    have "lock ?m' = Unlocked" "entries ?m' < next_map ?m'" "sweeper ?m' = Stopped"
      using assms(1) that(1) by simp_all
    from run_Stopped [OF that(2) this] show ?thesis
      by (simp add: never)
  qed
  show ?thesis
    using stop clear close later by (intro exI [of _ ?m1] exI [of _ ?m']) (simp add: never)
qed

theorem Close_stops_then_clears_witness:
  "lock tm_one = Unlocked \<and> sweeper tm_one = Running \<and> entries tm_one < next_map tm_one \<and>
   fmlookup (found tm_one) ''myString'' = Some 0 \<and>
   (\<exists>m'. Close tm_one = Done m' \<and> table m' = empty_map \<and> sweeper m' = Stopped \<and>
         ticker m' = TickerStopped \<and>
         sweeper_tick 5000000000 [(Key ''myString'', 0)] m' = Blocks \<and>
         (\<exists>m''. run [] [CallPut (Key ''k'') ''v'' 7, CallLen] m' = Done m'' \<and>
                sweeper_tick 5000000000 [(Key ''k'', 1)] m'' = Blocks))"
proof -
  have h: "lock tm_one = Unlocked" "sweeper tm_one = Running"
    by (simp_all add: tm_one_def tm_new_def)
  have e: "entries tm_one < next_map tm_one" "fmlookup (found tm_one) ''myString'' = Some 0"
    by (simp_all add: tm_one_def tm_new_def)
  from Close_stops_then_clears [OF h, of "[]"] e(1)
  obtain m' where c: "Close tm_one = Done m'" "table m' = empty_map" "sweeper m' = Stopped"
    "ticker m' = TickerStopped" "\<forall>now es. sweeper_tick now es m' = Blocks"
    "\<forall>cs m''. run [] cs m' = Done m'' \<longrightarrow> (\<forall>now es. sweeper_tick now es m'' = Blocks)"
    by blast
  have l: "lock m' = Unlocked"
    using c(1) h by (auto simp: Close_def sweeper_stop_def Clear_Done)
  then obtain m'' where r: "run [] [CallPut (Key ''k'') ''v'' 7, CallLen] m' = Done m''"
    by (simp add: Put_Done Len_Done)
  with c(6) have "sweeper_tick 5000000000 [(Key ''k'', 1)] m'' = Blocks" by blast
  with c(1-5) r h e show ?thesis by blast
qed

subsection \<open>New\<close>

text \<open>
  Claim C7, as amended. \<^verbatim>\<open>New\<close> returns normally for every sweep interval, zero and negative
  ones included: it returns a map with an empty table, the lock free and the goroutine
  created. The interval is first looked at when the goroutine starts: for a non-positive
  interval \<^verbatim>\<open>time.NewTicker\<close> panics there, outside the call of \<^verbatim>\<open>New\<close>; for a positive one the
  goroutine enters its loop with a ticker of that interval.
\<close>

theorem New_returns_for_every_interval:
  "\<exists>m. New capacity t interval h = Done m \<and>
        table m = empty_map \<and> lock m = Unlocked \<and> ttl m = t \<and> pruneInterval m = interval \<and>
        sweeper m = Spawned \<and> ticker m = NoTicker \<and>
        (interval \<le>s 0 \<longrightarrow> sweeper_start m = Fault NonPositiveTickerInterval) \<and>
        (0 <s interval \<longrightarrow>
           sweeper_start m = Done (m\<lparr>sweeper := Running, ticker := Ticking interval\<rparr>))"
  by (simp add: New_Done sweeper_start_def flip: not_sle_iff)

theorem New_returns_for_every_interval_witness:
  "(0 :: int64) \<le>s 0 \<and> (0 :: int64) <s 3000000000 \<and>
   (\<exists>m :: (string, string) state. New 3 2000000000 0 mem0 = Done m \<and> sweeper m = Spawned \<and>
      sweeper_start m = Fault NonPositiveTickerInterval) \<and>
   (\<exists>m :: (string, string) state. New 3 2000000000 3000000000 mem0 = Done m \<and>
      sweeper_start m = Done tm_new)"
proof -
  have i: "(0 :: int64) \<le>s 0" "(0 :: int64) <s 3000000000"
    by (simp_all add: word_sless_alt)
  from New_returns_for_every_interval [of 3 2000000000 0 mem0] i(1)
  have a: "\<exists>m :: (string, string) state. New 3 2000000000 0 mem0 = Done m \<and>
             sweeper m = Spawned \<and> sweeper_start m = Fault NonPositiveTickerInterval"
    by blast
  from New_returns_for_every_interval [of 3 2000000000 3000000000 mem0] i(2)
  obtain m :: "(string, string) state"
    where m: "New 3 2000000000 3000000000 mem0 = Done m"
      "sweeper_start m = Done (m\<lparr>sweeper := Running, ticker := Ticking 3000000000\<rparr>)"
    by blast
  from m(1) have "m\<lparr>sweeper := Running, ticker := Ticking 3000000000\<rparr> = tm_new"
    by (auto simp: New_Done mem0_def tm_new_def)
  with m have b: "\<exists>m :: (string, string) state. New 3 2000000000 3000000000 mem0 = Done m \<and>
      sweeper_start m = Done tm_new"
    by auto
  from i a b show ?thesis by blast
qed

theorem New_nonpositive_interval_counterexample:
  "(0 :: int64) \<le>s 0 \<and>
   is_Done (New 3 2000000000 0 mem0 :: (string, string) state outcome) \<and>
   andThen (New 3 2000000000 0 mem0) (Put (Key ''myString'') ''a b c'' 1000) =
     Done (tm_one\<lparr>pruneInterval := 0, sweeper := Spawned, ticker := NoTicker\<rparr>)"
  by (simp add: New_Done mem0_def Put_Done tm_one_def tm_new_def empty_map_def)

subsection \<open>Copy\<close>

lemma returned_Get:
  "lock m = Unlocked \<Longrightarrow>
   returned (Get zero key m) =
     (case key of
        Key k \<Rightarrow> Some (case fmlookup (found m) k of
                          Some p \<Rightarrow> (item_value (items m p), True)
                        | None \<Rightarrow> (zero, False))
      | NaNKey k \<Rightarrow> Some (zero, False)
      | Unhashable \<Rightarrow> None)"
  by (cases key) (simp_all add: Get_Done Get_NaN_Done Get_Unhashable)

lemma returned_Get_same:
  assumes "lock m1 = Unlocked" and "lock m2 = Unlocked"
    and "table m1 = table m2" and "items m1 = items m2"
  shows "returned (Get zero key m1) = returned (Get zero key m2)"
  unfolding returned_Get [OF assms(1)] returned_Get [OF assms(2)] assms(3,4) ..

text \<open>
  Claim C6, as amended. With the lock free and the map object of the \<^verbatim>\<open>TtlMap\<close> allocated,
  \<^verbatim>\<open>Copy\<close> returns a new map object, different from the live one, that holds exactly the
  entries of the live table, each key with the same item address (hence the same values and
  expiry times); the live table and the items are unchanged. Assigning a key, deleting a
  key or clearing in the returned map never changes the live table or what \<^verbatim>\<open>Get\<close> returns
  on the live map. The copy is shallow: the items are shared, and an item written through
  an address found in the copy is what \<^verbatim>\<open>Get\<close> on the live map then returns.
\<close>

theorem Copy_is_shallow:
  assumes "lock m = Unlocked" and "entries m < next_map m"
  shows "\<exists>dst m'. Copy m = Done (dst, m') \<and> dst \<noteq> entries m' \<and>
           maps m' dst = table m \<and> table m' = table m \<and> items m' = items m \<and>
           (\<forall>k. returned (Get zero k m') = returned (Get zero k m)) \<and>
           (\<forall>key p. key \<noteq> Unhashable \<longrightarrow>
              (\<exists>m''. map_assign dst key p m' = Done m'' \<and> table m'' = table m' \<and>
                 (\<forall>k. returned (Get zero k m'') = returned (Get zero k m')))) \<and>
           (\<forall>key. key \<noteq> Unhashable \<longrightarrow>
              (\<exists>m''. map_delete dst key m' = Done m'' \<and> table m'' = table m' \<and>
                 (\<forall>k. returned (Get zero k m'') = returned (Get zero k m')))) \<and>
           (\<forall>k. table (map_clear dst m') = table m' \<and>
              returned (Get zero k (map_clear dst m')) = returned (Get zero k m')) \<and>
           (\<forall>k p it. fmlookup (reachable (maps m' dst)) k = Some p \<longrightarrow>
              returned (Get zero (Key k) (item_store p it m')) = Some (item_value it, True))"
proof -
  let ?dst = "next_map m"
  let ?m' = "m\<lparr>maps := (maps m)(?dst := table m), next_map := Suc ?dst\<rparr>"
  have ne: "entries m \<noteq> ?dst"
    using assms(2) by simp
  have copy: "Copy m = Done (?dst, ?m')"
    using assms(1) ne by (rule Copy_Done)
  have l: "lock ?m' = Unlocked"
    using assms(1) by simp
  have same: "table ?m' = table m" "maps ?m' ?dst = table m" "items ?m' = items m"
    using ne by simp_all
  have get: "returned (Get zero k ?m') = returned (Get zero k m)" for k
    using l assms(1) same(1,3) by (rule returned_Get_same)
  have assign: "\<exists>m''. map_assign ?dst key p ?m' = Done m'' \<and> table m'' = table ?m' \<and>
                  (\<forall>k. returned (Get zero k m'') = returned (Get zero k ?m'))"
    if "key \<noteq> Unhashable" for key p
  proof -
    from that obtain obj where "mapassign key p (maps ?m' ?dst) = Done obj"
      by (cases key) simp_all
    then have a: "map_assign ?dst key p ?m' = Done (?m'\<lparr>maps := (maps ?m')(?dst := obj)\<rparr>)"
      by (simp add: map_assign_def)
    let ?m'' = "?m'\<lparr>maps := (maps ?m')(?dst := obj)\<rparr>"
    have f: "lock ?m'' = Unlocked" "table ?m'' = table ?m'" "items ?m'' = items ?m'"
      using assms(1) ne by simp_all
    have "returned (Get zero k ?m'') = returned (Get zero k ?m')" for k
      using f(1) l f(2,3) by (rule returned_Get_same)
    with a f(2) show ?thesis by blast
  qed
  have delete: "\<exists>m''. map_delete ?dst key ?m' = Done m'' \<and> table m'' = table ?m' \<and>
                  (\<forall>k. returned (Get zero k m'') = returned (Get zero k ?m'))"
    if "key \<noteq> Unhashable" for key
  proof -
    from that obtain obj where "mapdelete key (maps ?m' ?dst) = Done obj"
      by (cases key) simp_all
    then have a: "map_delete ?dst key ?m' = Done (?m'\<lparr>maps := (maps ?m')(?dst := obj)\<rparr>)"
      by (simp add: map_delete_def)
    let ?m'' = "?m'\<lparr>maps := (maps ?m')(?dst := obj)\<rparr>"
    have f: "lock ?m'' = Unlocked" "table ?m'' = table ?m'" "items ?m'' = items ?m'"
      using assms(1) ne by simp_all
    have "returned (Get zero k ?m'') = returned (Get zero k ?m')" for k
      using f(1) l f(2,3) by (rule returned_Get_same)
    with a f(2) show ?thesis by blast
  qed
  have clear: "table (map_clear ?dst ?m') = table ?m' \<and>
        returned (Get zero k (map_clear ?dst ?m')) = returned (Get zero k ?m')" for k
  proof -
    have f: "lock (map_clear ?dst ?m') = Unlocked" "table (map_clear ?dst ?m') = table ?m'"
      "items (map_clear ?dst ?m') = items ?m'"
      using assms(1) ne by (simp_all add: map_clear_def)
    from f(1) l f(2,3)
    have "returned (Get zero k (map_clear ?dst ?m')) = returned (Get zero k ?m')"
      by (rule returned_Get_same)
    with f(2) show ?thesis by blast
  qed
  have shared: "returned (Get zero (Key k) (item_store p it ?m')) = Some (item_value it, True)"
    if "fmlookup (reachable (maps ?m' ?dst)) k = Some p" for k p it
    using that assms(1) ne by (simp add: returned_Get item_store_def)
  show ?thesis
  proof (intro exI [of _ ?dst] exI [of _ ?m'] conjI)
    show "Copy m = Done (?dst, ?m')" by (rule copy)
    show "?dst \<noteq> entries ?m'" using ne by simp
    show "maps ?m' ?dst = table m" by (rule same)
    show "table ?m' = table m" by (rule same)
    show "items ?m' = items m" by (rule same)
    show "\<forall>k. returned (Get zero k ?m') = returned (Get zero k m)" using get by blast
    show "\<forall>key p. key \<noteq> Unhashable \<longrightarrow>
              (\<exists>m''. map_assign ?dst key p ?m' = Done m'' \<and> table m'' = table ?m' \<and>
                 (\<forall>k. returned (Get zero k m'') = returned (Get zero k ?m')))"
      using assign by blast
    show "\<forall>key. key \<noteq> Unhashable \<longrightarrow>
              (\<exists>m''. map_delete ?dst key ?m' = Done m'' \<and> table m'' = table ?m' \<and>
                 (\<forall>k. returned (Get zero k m'') = returned (Get zero k ?m')))"
      using delete by blast
    show "\<forall>k. table (map_clear ?dst ?m') = table ?m' \<and>
              returned (Get zero k (map_clear ?dst ?m')) = returned (Get zero k ?m')"
      using clear by blast
    show "\<forall>k p it. fmlookup (reachable (maps ?m' ?dst)) k = Some p \<longrightarrow>
              returned (Get zero (Key k) (item_store p it ?m')) = Some (item_value it, True)"
      using shared by blast
  qed
qed

theorem Copy_is_shallow_witness:
  "lock tm_one = Unlocked \<and> entries tm_one < next_map tm_one \<and>
   Copy tm_one = Done (1, tm_copied) \<and>
   fmlookup (reachable (maps tm_copied 1)) ''myString'' = Some 0 \<and>
   (\<exists>m''. map_delete 1 (Key ''myString'') tm_copied = Done m'' \<and>
          returned (Get [] (Key ''myString'') m'') = Some (''a b c'', True)) \<and>
   (\<exists>m''. map_assign 1 (Key ''myString'') 5 tm_copied = Done m'' \<and>
          returned (Get [] (Key ''myString'') m'') = Some (''a b c'', True)) \<and>
   returned (Get [] (Key ''myString'') (map_clear 1 tm_copied)) = Some (''a b c'', True)"
proof -
  have h: "lock tm_one = Unlocked" "entries tm_one < next_map tm_one"
    by (simp_all add: tm_one_def tm_new_def)
  have c: "Copy tm_one = Done (1, tm_copied)"
    using h by (simp add: Copy_Done tm_copied_def) (simp add: tm_one_def tm_new_def)
  have g: "returned (Get [] (Key ''myString'') tm_one) = Some (''a b c'', True)"
    using h by (simp add: returned_Get) (simp add: tm_one_def tm_new_def)
  have u: "Key ''myString'' \<noteq> (Unhashable :: string key)" by simp
  from Copy_is_shallow [OF h, of "[]"]
  obtain dst m' where o: "Copy tm_one = Done (dst, m')"
    and o1: "maps m' dst = table tm_one"
    and o2: "\<forall>k. returned (Get [] k m') = returned (Get [] k tm_one)"
    and o3: "\<forall>key p. key \<noteq> Unhashable \<longrightarrow>
              (\<exists>m''. map_assign dst key p m' = Done m'' \<and> table m'' = table m' \<and>
                 (\<forall>k. returned (Get [] k m'') = returned (Get [] k m')))"
    and o4: "\<forall>key. key \<noteq> Unhashable \<longrightarrow>
              (\<exists>m''. map_delete dst key m' = Done m'' \<and> table m'' = table m' \<and>
                 (\<forall>k. returned (Get [] k m'') = returned (Get [] k m')))"
    and o5: "\<forall>k. table (map_clear dst m') = table m' \<and>
              returned (Get [] k (map_clear dst m')) = returned (Get [] k m')"
    by blast
  from o c have eq: "dst = 1" "m' = tm_copied" by simp_all
  note s = o1 [unfolded eq] o2 [unfolded eq] o3 [unfolded eq] o4 [unfolded eq] o5 [unfolded eq]
  from s(1) have a: "fmlookup (reachable (maps tm_copied 1)) ''myString'' = Some 0"
    by (simp add: tm_one_def tm_new_def)
  from s(2) g have g': "returned (Get [] (Key ''myString'') tm_copied) = Some (''a b c'', True)"
    by simp
  from s(4) [rule_format, OF u] g'
  have d: "\<exists>m''. map_delete 1 (Key ''myString'') tm_copied = Done m'' \<and>
          returned (Get [] (Key ''myString'') m'') = Some (''a b c'', True)"
    by auto
  from s(3) [rule_format, OF u, of 5] g'
  have b: "\<exists>m''. map_assign 1 (Key ''myString'') 5 tm_copied = Done m'' \<and>
          returned (Get [] (Key ''myString'') m'') = Some (''a b c'', True)"
    by auto
  from s(5) g'
  have e: "returned (Get [] (Key ''myString'') (map_clear 1 tm_copied)) = Some (''a b c'', True)"
    by simp
  from h c a d b e show ?thesis by blast
qed

theorem Copy_shares_items_counterexample:
  "Copy tm_one = Done (1, tm_copied) \<and>
   map_index 1 (Key ''myString'') tm_copied = Done (Some 0) \<and>
   Get [] (Key ''myString'') tm_copied = Done ((''a b c'', True), tm_copied) \<and>
   returned (Get [] (Key ''myString'')
               (item_store 0 \<lparr>item_value = ''changed'', expires = 0\<rparr> tm_copied)) =
     Some (''changed'', True)"
proof -
  have l: "lock tm_one = Unlocked" "lock tm_copied = Unlocked" "entries tm_one \<noteq> next_map tm_one"
    "lock (item_store 0 \<lparr>item_value = ''changed'', expires = 0\<rparr> tm_copied) = Unlocked"
    by (simp_all add: tm_copied_def tm_one_def tm_new_def item_store_def)
  have c: "Copy tm_one = Done (1, tm_copied)"
    using l(1,3) by (simp add: Copy_Done tm_copied_def) (simp add: tm_one_def tm_new_def)
  have i: "map_index 1 (Key ''myString'') tm_copied = Done (Some 0)"
    by (simp add: map_index_def tm_copied_def tm_one_def tm_new_def)
  have g1: "Get [] (Key ''myString'') tm_copied = Done ((''a b c'', True), tm_copied)"
    using l(2) by (simp add: Get_Done) (simp add: tm_copied_def tm_one_def tm_new_def)
  have g2: "returned (Get [] (Key ''myString'')
               (item_store 0 \<lparr>item_value = ''changed'', expires = 0\<rparr> tm_copied)) =
     Some (''changed'', True)"
    using l(4) by (simp add: returned_Get)
      (simp add: tm_copied_def tm_one_def tm_new_def item_store_def)
  from c i g1 g2 show ?thesis by simp
qed

end
